theory Spec2Isabelle
  imports Complex_Main "HOL-Library.Word" "HOL-Library.Log_Nat"
begin

unbundle bit_operations_syntax

section \<open>PAL utility collection: inline functions (palInlineFuncs.h)\<close>

text \<open>
  Unsigned C++ integers of width \<open>w\<close> are \<open>w word\<close>: \<open>uint32\<close> is \<open>32 word\<close>,
  \<open>uint64\<close> and \<open>size_t\<close> are \<open>64 word\<close>, and a template parameter \<open>T\<close> is
  \<open>'a word\<close>. Arithmetic on words wraps modulo \<open>2 ^ w\<close> as the C++ does; \<open>ucast\<close> is
  the conversion between unsigned types (zero extension or truncation).

  What C++ leaves undefined, and what a failed \<open>PAL_ASSERT\<close> reports, is a value of
  type \<open>fault\<close>; a function that can fail returns \<open>fault + 'a\<close>.
\<close>

datatype fault =
    AssertFailed        \<comment> \<open>a \<open>PAL_ASSERT\<close> whose condition is false\<close>
  | OutOfBounds         \<comment> \<open>an array read or write at an index outside the array\<close>
  | ShiftOutOfRange     \<comment> \<open>a shift of an \<open>int\<close> by 32 bits or more\<close>
  | DivideByZero        \<comment> \<open>an integer division by zero\<close>

subsection \<open>Powers of two, alignment, rounding\<close>

text \<open>\<open>IsPowerOfTwo(uint64 value)\<close>, lines 196-200.\<close>

definition IsPowerOfTwo :: "64 word \<Rightarrow> bool" where
  "IsPowerOfTwo v = (if v = 0 then False else (v AND (v - 1)) = 0)"

text \<open>
  \<open>Pow2Align<T>(T value, uint64 alignment)\<close>, lines 217-224. \<open>static_cast<T>(alignment)\<close>
  is \<open>ucast alignment\<close>. For a \<open>T\<close> narrower than \<open>int\<close> the C++ computes in \<open>int\<close> and
  converts the result back to \<open>T\<close>; \<open>+\<close>, \<open>-\<close>, \<open>&\<close> and \<open>~\<close> commute with that
  truncation, so the word operations at \<open>T\<close> give the same value.
\<close>

definition Pow2Align :: "'a::len word \<Rightarrow> 64 word \<Rightarrow> fault + 'a word" where
  "Pow2Align v alignment =
     (if \<not> IsPowerOfTwo alignment then Inl AssertFailed
      else Inr ((v + ucast alignment - 1) AND NOT (ucast alignment - 1)))"

text \<open>
  \<open>RoundUpQuotient<T>(T dividend, T divisor)\<close>, lines 229-235, for a \<open>T\<close> at least as
  wide as \<open>int\<close> (\<open>uint32\<close>, \<open>uint64\<close>), where the sum wraps in \<open>T\<close> before the division.
\<close>

definition RoundUpQuotient :: "'a::len word \<Rightarrow> 'a word \<Rightarrow> fault + 'a word" where
  "RoundUpQuotient dividend divisor =
     (if divisor = 0 then Inl DivideByZero
      else Inr ((dividend + (divisor - 1)) div divisor))"

text \<open>
  \<open>NumBytesToNumDwords(uint32 numBytes)\<close>, lines 479-483. \<open>sizeof(uint32)\<close> is the
  \<open>size_t\<close> 4, so the division is done at 64 bits and its result converted to \<open>uint32\<close>.
\<close>

definition NumBytesToNumDwords :: "32 word \<Rightarrow> fault + 32 word" where
  "NumBytesToNumDwords numBytes =
     (case Pow2Align numBytes (ucast (4 :: 32 word)) of
        Inl e \<Rightarrow> Inl e
      | Inr aligned \<Rightarrow> Inr (ucast ((ucast aligned :: 64 word) div 4)))"

subsection \<open>Logarithm\<close>

text \<open>
  \<open>Log2<T>(T u)\<close>, lines 353-366: the loop \<open>while (u > 1) { ++logValue; u >>= 1; }\<close>
  with the counter \<open>logValue\<close>, a \<open>uint32\<close>, as accumulator.
\<close>

function Log2_loop :: "'a::len word \<Rightarrow> 32 word \<Rightarrow> 32 word" where
  "Log2_loop u logValue =
     (if 1 < u then Log2_loop (drop_bit 1 u) (logValue + 1) else logValue)"
  by pat_completeness auto
termination
proof (relation "measure (\<lambda>(u, logValue). unat u)")
  show "wf (measure (\<lambda>(u :: 'a word, logValue :: 32 word). unat u))"
    by simp
next
  fix u :: "'a word" and logValue :: "32 word"
  assume "1 < u"
  then have "0 < unat u"
    by (simp add: word_less_nat_alt)
  then have "unat u div 2 < unat u"
    by simp
  then have "unat (drop_bit 1 u) < unat u"
    unfolding unat_drop_bit_eq by (simp add: drop_bit_eq_div)
  then show "((drop_bit 1 u, logValue + 1), (u, logValue))
               \<in> measure (\<lambda>(u, logValue). unat u)"
    by simp
qed

declare Log2_loop.simps [simp del]

definition Log2 :: "'a::len word \<Rightarrow> 32 word" where
  "Log2 u = Log2_loop u 0"

text \<open>
  \<open>Pow2Pad<T>(T value)\<close>, lines 275-293. The loop \<open>while (ret < value) ret <<= 1\<close>
  need not end (\<open>ret\<close> becomes 0 once its only set bit is shifted out), so it is a
  partial function: \<open>None\<close> is a call that never returns. \<open>IsPowerOfTwo\<close> takes a
  \<open>uint64\<close>, so \<open>value\<close> is zero-extended to it.
\<close>

partial_function (option) Pow2Pad_loop :: "'a::len word \<Rightarrow> 'a word \<Rightarrow> 'a word option" where
  "Pow2Pad_loop v ret = (if ret < v then Pow2Pad_loop v (push_bit 1 ret) else Some ret)"

definition Pow2Pad :: "'a::len word \<Rightarrow> 'a word option" where
  "Pow2Pad v = (if IsPowerOfTwo (ucast v) then Some v else Pow2Pad_loop v 1)"

subsection \<open>Wide bitfields\<close>

text \<open>
  A wide bitfield \<open>T (&bitfield)[N]\<close> is a list of \<open>N\<close> words of \<open>LENGTH('a)\<close> bits, and
  \<open>sizeof(T) << 3\<close> is \<open>LENGTH('a)\<close>. An index outside the array is \<open>OutOfBounds\<close>.

  The mask is \<open>const uint32 mask = (1 << (bit & ((sizeof(T) << 3) - 1)))\<close>: the literal
  \<open>1\<close> is an \<open>int\<close>, so the shift is a 32-bit shift, undefined for a count of 32 or
  more, and its result is converted to \<open>uint32\<close>.
\<close>

definition int_shl1 :: "nat \<Rightarrow> fault + 32 word" where
  "int_shl1 s = (if s < 32 then Inr (push_bit s 1) else Inl ShiftOutOfRange)"

definition bit_mask :: "'a::len itself \<Rightarrow> 32 word \<Rightarrow> fault + 32 word" where
  "bit_mask T b = int_shl1 (unat b AND (LENGTH('a) - 1))"

definition word_index :: "'a::len itself \<Rightarrow> 32 word \<Rightarrow> nat" where
  "word_index T b = unat b div LENGTH('a)"

text \<open>
  \<open>WideBitfieldIsSet\<close>, lines 114-123. \<open>bitfield[index] & mask\<close> is computed at the wider
  of \<open>T\<close> and \<open>uint32\<close>, both operands zero-extended: here at 64 bits, which holds every
  unsigned \<open>T\<close>.
\<close>

definition WideBitfieldIsSet :: "'a::len word list \<Rightarrow> 32 word \<Rightarrow> fault + bool" where
  "WideBitfieldIsSet bitfield b =
     (case bit_mask TYPE('a) b of
        Inl e \<Rightarrow> Inl e
      | Inr m \<Rightarrow>
          let index = word_index TYPE('a) b in
          if index < length bitfield
          then Inr (0 \<noteq> ((ucast (bitfield ! index) :: 64 word) AND ucast m))
          else Inl OutOfBounds)"

text \<open>
  \<open>WideBitfieldSetBit\<close>, lines 130-139: \<open>bitfield[index] |= mask\<close>, the result converted
  back to \<open>T\<close>. The function returns the array as it is after the call.
\<close>

definition WideBitfieldSetBit :: "'a::len word list \<Rightarrow> 32 word \<Rightarrow> fault + 'a word list" where
  "WideBitfieldSetBit bitfield b =
     (case bit_mask TYPE('a) b of
        Inl e \<Rightarrow> Inl e
      | Inr m \<Rightarrow>
          let index = word_index TYPE('a) b in
          if index < length bitfield
          then Inr (bitfield[index :=
                 ucast ((ucast (bitfield ! index) :: 64 word) OR ucast m)])
          else Inl OutOfBounds)"

text \<open>
  \<open>WideBitfieldClearBit\<close>, lines 146-155: \<open>bitfield[index] &= ~mask\<close>, where \<open>~mask\<close> is
  a \<open>uint32\<close> that is zero-extended when \<open>T\<close> is wider.
\<close>

definition WideBitfieldClearBit :: "'a::len word list \<Rightarrow> 32 word \<Rightarrow> fault + 'a word list" where
  "WideBitfieldClearBit bitfield b =
     (case bit_mask TYPE('a) b of
        Inl e \<Rightarrow> Inl e
      | Inr m \<Rightarrow>
          let index = word_index TYPE('a) b in
          if index < length bitfield
          then Inr (bitfield[index :=
                 ucast ((ucast (bitfield ! index) :: 64 word) AND ucast (NOT m))])
          else Inl OutOfBounds)"

text \<open>
  The index encoding of the data model, read off a bitfield: bit \<open>i\<close> of a wide
  bitfield is bit \<open>i mod W\<close> of the word at index \<open>i div W\<close>.
\<close>

definition wide_bit :: "'a::len word list \<Rightarrow> nat \<Rightarrow> bool" where
  "wide_bit bitfield i =
     (i < length bitfield * LENGTH('a) \<and>
      bit (bitfield ! (i div LENGTH('a))) (i mod LENGTH('a)))"

subsection \<open>Scanning for the least-significant set bit\<close>

text \<open>
  The compiler builtin \<open>__builtin_ffs(int x)\<close>: one plus the index of the least
  significant 1-bit of \<open>x\<close>, or zero if \<open>x\<close> is zero.
\<close>

definition builtin_ffs :: "32 word \<Rightarrow> 32 word" where
  "builtin_ffs x = (case find (bit x) [0..<32] of None \<Rightarrow> 0 | Some i \<Rightarrow> of_nat (Suc i))"

text \<open>
  \<open>WideBitMaskScanForward\<close>, lines 414-456. The counters \<open>index\<close> and \<open>maskIndex\<close> are
  \<open>uint32\<close>s that stay at or below \<open>N\<close>; they are natural numbers here. The array
  \<open>mask\<close> is called \<open>bitmask\<close>.

  The first loop is \<open>while ((mask[index] == 0) && (++index < N));\<close> started at 0.
\<close>

function first_nonzero :: "'a::len word list \<Rightarrow> nat \<Rightarrow> nat" where
  "first_nonzero bitmask index =
     (if index < length bitmask \<and> bitmask ! index = 0
      then (if index + 1 < length bitmask then first_nonzero bitmask (index + 1) else index + 1)
      else index)"
  by pat_completeness auto
termination
  by (relation "measure (\<lambda>(bitmask, index). length bitmask - index)") auto

declare first_nonzero.simps [simp del]

text \<open>
  The second loop, \<open>while (result == true)\<close>, entered with \<open>result = true\<close>: it returns
  \<open>result\<close> and the final \<open>*pIndex\<close>. \<open>__builtin_ffs\<close> takes an \<open>int\<close>, to which
  \<open>mask[maskIndex]\<close> is converted.
\<close>

function scan_words :: "'a::len word list \<Rightarrow> nat \<Rightarrow> fault + bool \<times> 32 word" where
  "scan_words bitmask maskIndex =
     (if length bitmask \<le> maskIndex then Inl OutOfBounds
      else
        let indexPlusOne = builtin_ffs (ucast (bitmask ! maskIndex)) in
        if indexPlusOne = 0
        then (if maskIndex + 1 < length bitmask then scan_words bitmask (maskIndex + 1)
              else Inr (False, 0))
        else Inr (True, (indexPlusOne - 1) + of_nat (maskIndex * LENGTH('a))))"
  by pat_completeness auto
termination
  by (relation "measure (\<lambda>(bitmask, maskIndex). length bitmask - maskIndex)") auto

declare scan_words.simps [simp del]

definition WideBitMaskScanForward ::
    "32 word \<Rightarrow> 'a::len word list \<Rightarrow> fault + bool \<times> 32 word" where
  "WideBitMaskScanForward pIndex bitmask =
     (if bitmask = [] then Inl OutOfBounds
      else
        let maskIndex = word_index TYPE('a) pIndex;
            index = first_nonzero bitmask 0;
            result = (index < length bitmask)
        in if result then scan_words bitmask maskIndex else Inr (False, pIndex))"

subsection \<open>Population count\<close>

text \<open>\<open>CountSetBits(uint32 value)\<close>, lines 584-594.\<close>

definition CountSetBits :: "32 word \<Rightarrow> 32 word" where
  "CountSetBits v =
     (let x = v;
          x = x - (drop_bit 1 x AND 0x55555555);
          x = (x AND 0x33333333) + (drop_bit 2 x AND 0x33333333);
          x = drop_bit 24 (((x + drop_bit 4 x) AND 0x0F0F0F0F) * 0x01010101)
      in x)"

text \<open>The naive count: the number of positions \<open>i\<close> in \<open>[0, 32)\<close> with bit \<open>i\<close> set.\<close>

definition naive_popcount :: "32 word \<Rightarrow> nat" where
  "naive_popcount x = length (filter (bit x) [0..<32])"

subsection \<open>String hashing\<close>

text \<open>
  \<open>HashString(const char* pStr, size_t strSize)\<close>, lines 560-578. The string is the
  list of its bytes, \<open>None\<close> for \<open>nullptr\<close>. Whether plain \<open>char\<close> is signed is the
  compiler's choice, a parameter here: \<open>static_cast<uint32>(pStr[i])\<close> sign-extends a
  signed \<open>char\<close> and zero-extends an unsigned one.

  The counter \<open>i\<close> is a \<open>uint32\<close> compared with a \<open>size_t\<close>: for \<open>strSize\<close> of
  \<open>2 ^ 32\<close> or more it wraps and the loop does not end, so the loop is a partial
  function.
\<close>

definition char_to_uint32 :: "bool \<Rightarrow> 8 word \<Rightarrow> 32 word" where
  "char_to_uint32 char_is_signed c = (if char_is_signed then scast c else ucast c)"

definition fnvPrime :: "32 word" where
  "fnvPrime = 16777619"

definition fnvOffset :: "32 word" where
  "fnvOffset = 2166136261"

partial_function (option) HashString_loop ::
    "bool \<Rightarrow> 8 word list \<Rightarrow> 64 word \<Rightarrow> 32 word \<Rightarrow> 32 word \<Rightarrow> (fault + 32 word) option" where
  "HashString_loop char_is_signed pStr strSize i hash =
     (if (ucast i :: 64 word) < strSize
      then (if unat i < length pStr
            then HashString_loop char_is_signed pStr strSize (i + 1)
                   ((hash XOR char_to_uint32 char_is_signed (pStr ! unat i)) * fnvPrime)
            else Some (Inl OutOfBounds))
      else Some (Inr hash))"

definition HashString ::
    "bool \<Rightarrow> 8 word list option \<Rightarrow> 64 word \<Rightarrow> (fault + 32 word) option" where
  "HashString char_is_signed pStr strSize =
     (case pStr of
        None \<Rightarrow> Some (Inl AssertFailed)
      | Some bytes \<Rightarrow>
          if strSize = 0 then Some (Inl AssertFailed)
          else HashString_loop char_is_signed bytes strSize 0 fnvOffset)"

text \<open>
  The 32-bit FNV-1a reference hash, as the specification words it: start with the
  offset basis 2166136261, then for each byte in order
  \<open>hash = (hash XOR byte) * 16777619\<close> modulo \<open>2 ^ 32\<close>.
\<close>

definition fnv1a_reference :: "8 word list \<Rightarrow> 32 word" where
  "fnv1a_reference bytes =
     foldl (\<lambda>hash byte. (hash XOR ucast byte) * 16777619) 2166136261 bytes"

section \<open>Debug print routing (palDbgPrint.h)\<close>

text \<open>
  The header declares the categories, the modes, the style flags and the callback
  struct; they are taken from it. \<open>DbgPrintCatCount\<close> only counts the categories.
\<close>

datatype DbgPrintCategory =
    DbgPrintCatInfoMsg
  | DbgPrintCatWarnMsg
  | DbgPrintCatErrorMsg
  | DbgPrintCatScMsg

datatype DbgPrintMode = Disable | Print | File




text \<open>
  \<open>struct DbgPrintCallback\<close>: a function pointer (\<open>None\<close> for \<open>nullptr\<close>, which means
  that no callback is installed) and the user-data pointer; both are addresses.
\<close>

record DbgPrintCallback =
  pCallbackFunc :: "nat option"
  pUserdata :: nat

text \<open>
  The process-wide routing state (the category-to-mode table and the callback
  registration), together with what each sink has received so far: the calls made to
  callbacks, the text sent to the default diagnostic output, and the text written to
  the log file of a category.
\<close>

record dbg_state =
  mode_table :: "DbgPrintCategory \<Rightarrow> DbgPrintMode"
  callback :: DbgPrintCallback
  callback_calls :: "(nat \<times> nat \<times> DbgPrintCategory \<times> string) list"
  debug_output :: "string list"
  file_writes :: "(DbgPrintCategory \<times> string) list"

text \<open>
  Modelled from the spec: \<open>SetDbgPrintMode\<close> and \<open>SetDbgPrintCallback\<close> are declared in
  the header only. The mode of a category changes by an explicit call; installing a
  callback replaces the previous one, and a null function pointer clears it.
\<close>

definition SetDbgPrintMode :: "dbg_state \<Rightarrow> DbgPrintCategory \<Rightarrow> DbgPrintMode \<Rightarrow> dbg_state" where
  "SetDbgPrintMode st category m = st\<lparr>mode_table := (mode_table st)(category := m)\<rparr>"

definition SetDbgPrintCallback :: "dbg_state \<Rightarrow> DbgPrintCallback \<Rightarrow> dbg_state" where
  "SetDbgPrintCallback st cb = st\<lparr>callback := cb\<rparr>"




section \<open>Helper facts about words\<close>

lemma drop_bit_and_not_mask:
  "drop_bit k (x AND NOT (mask k)) = drop_bit k (x :: 'a::len word)"
  by (rule bit_word_eqI) (auto simp add: bit_simps dest: bit_imp_le_length)

lemma unat_drop_bit_div: "unat (drop_bit n (u :: 'a::len word)) = unat u div 2 ^ n"
  unfolding unat_drop_bit_eq by (simp add: drop_bit_eq_div)

section \<open>Bytes to dwords\<close>

lemma and_not3_div4: "(x AND NOT 3) div 4 = x div (4 :: 32 word)"
proof -
  have "(3 :: 32 word) = mask 2"
    by (simp add: mask_eq_exp_minus_1)
  then have "drop_bit 2 (x AND NOT 3) = drop_bit 2 x"
    by (simp only: drop_bit_and_not_mask)
  then show ?thesis
    by (simp only: drop_bit_eq_div) simp
qed

lemma ucast_div4: "(ucast ((ucast (y :: 32 word) :: 64 word) div 4) :: 32 word) = y div 4"
proof -
  have "unat y div 4 < 2 ^ 32"
    using unsigned_less [of y, where 'a = nat] by simp
  then show ?thesis
    by (simp add: word_unat_eq_iff unat_div unsigned_ucast_eq take_bit_eq_mod)
qed

text \<open>
  Claim C9. For every \<open>uint32\<close> \<open>numBytes\<close>, \<open>NumBytesToNumDwords(numBytes)\<close>, computed
  as \<open>Pow2Align(numBytes, 4) / 4\<close>, returns the same value as the generic ceiling
  division \<open>RoundUpQuotient(numBytes, 4)\<close>, also where the intermediate addition
  \<open>numBytes + 3\<close> wraps modulo \<open>2 ^ 32\<close>.
\<close>

theorem NumBytesToNumDwords_eq_RoundUpQuotient:
  "NumBytesToNumDwords numBytes = RoundUpQuotient numBytes 4"
proof -
  have "NumBytesToNumDwords numBytes = Inr (((numBytes + 4 - 1) AND NOT 3) div 4)"
    by (simp add: NumBytesToNumDwords_def Pow2Align_def IsPowerOfTwo_def ucast_div4)
  also have "((numBytes + 4 - 1) AND NOT 3) div 4 = (numBytes + 4 - 1) div 4"
    by (rule and_not3_div4)
  also have "numBytes + 4 - 1 = numBytes + (4 - 1)"
    by simp
  also have "Inr ((numBytes + (4 - 1)) div 4) = RoundUpQuotient numBytes 4"
    by (simp add: RoundUpQuotient_def)
  finally show ?thesis .
qed

section \<open>Logarithm\<close>

lemma Log2_loop_bounds:
  "1 \<le> unat u \<Longrightarrow>
     \<exists>k. Log2_loop u acc = acc + of_nat k \<and> 2 ^ k \<le> unat u \<and> unat u < 2 ^ (k + 1)"
proof (induction u acc rule: Log2_loop.induct)
  case (1 u logValue)
  show ?case
  proof (cases "1 < u")
    case False
    then have "unat u \<le> 1"
      by (simp add: word_less_nat_alt not_less)
    with "1.prems" have "unat u = 1"
      by simp
    moreover have "Log2_loop u logValue = logValue"
      using False by (subst Log2_loop.simps) simp
    ultimately show ?thesis
      by (intro exI [of _ 0]) simp
  next
    case True
    then have big: "2 \<le> unat u"
      by (simp add: word_less_nat_alt)
    have half: "unat (drop_bit 1 u) = unat u div 2"
      by (simp add: unat_drop_bit_div)
    with big have "1 \<le> unat (drop_bit 1 u)"
      by simp
    from "1.IH" [OF True this] obtain k where
      k: "Log2_loop (drop_bit 1 u) (logValue + 1) = logValue + 1 + of_nat k"
         "2 ^ k \<le> unat u div 2" "unat u div 2 < 2 ^ (k + 1)"
      unfolding half by blast
    have "Log2_loop u logValue = logValue + of_nat (Suc k)"
      using True k(1) by (subst Log2_loop.simps) (simp add: add.assoc)
    moreover have "2 ^ Suc k \<le> unat u"
      using k(2) by simp
    moreover have "unat u < 2 ^ (Suc k + 1)"
      using k(3) by simp
    ultimately show ?thesis
      by blast
  qed
qed

text \<open>
  Claim C8. For every unsigned \<open>u \<ge> 1\<close>, \<open>Log2(u)\<close> returns \<open>floor(log2(u))\<close>; in
  particular \<open>Log2(1) = 0\<close>, and for the out-of-domain input 0, \<open>Log2(0)\<close> returns 0.
  \<open>T\<close> is any unsigned type of at most 64 bits.
\<close>

theorem Log2_floor_log2:
  fixes u :: "'a::len word"
  assumes "LENGTH('a) \<le> 64"
  shows "Log2 (0 :: 'a word) = 0 \<and> Log2 (1 :: 'a word) = 0 \<and>
         (1 \<le> u \<longrightarrow> int (unat (Log2 u)) = \<lfloor>log 2 (real (unat u))\<rfloor>)"
proof (intro conjI impI)
  show "Log2 (0 :: 'a word) = 0"
    unfolding Log2_def by (subst Log2_loop.simps) simp
  show "Log2 (1 :: 'a word) = 0"
    unfolding Log2_def by (subst Log2_loop.simps) simp
next
  assume "1 \<le> u"
  then have "1 \<le> unat u"
    by (simp add: word_le_nat_alt)
  from Log2_loop_bounds [OF this, of 0] obtain k where
    k: "Log2 u = of_nat k" "2 ^ k \<le> unat u" "unat u < 2 ^ (k + 1)"
    by (auto simp add: Log2_def)
  have "unat u < 2 ^ LENGTH('a)"
    by (rule unsigned_less)
  with k(2) have "(2::nat) ^ k < 2 ^ LENGTH('a)"
    by (rule le_less_trans)
  then have "k < LENGTH('a)"
    by simp
  with assms have "k < 2 ^ 32"
    by simp
  then have "unat (of_nat k :: 32 word) = k"
    by (simp add: unat_of_nat)
  moreover have "\<lfloor>log (real 2) (real (unat u))\<rfloor> = int k"
    using k(2,3) by (intro floor_log_nat_eq_if) simp_all
  ultimately show "int (unat (Log2 u)) = \<lfloor>log 2 (real (unat u))\<rfloor>"
    using k(1) by simp
qed

theorem Log2_floor_log2_witness:
  "Log2 (0 :: 32 word) = 0 \<and> Log2 (1 :: 32 word) = 0 \<and>
   (1 :: 32 word) \<le> 10 \<and> int (unat (Log2 (10 :: 32 word))) = \<lfloor>log 2 (real (unat (10 :: 32 word)))\<rfloor>
   \<and> Log2 (10 :: 32 word) = 3"
  using Log2_floor_log2 [of "10 :: 32 word"] by (simp add: Log2_def Log2_loop.simps)

section \<open>Wide bitfields: what a call may modify\<close>

lemma bit_mask_defined:
  "unat b AND (LENGTH('a::len) - 1) < 32 \<Longrightarrow> \<exists>m. bit_mask TYPE('a) b = Inr m"
  by (simp add: bit_mask_def int_shl1_def)

lemma SetBit_frame:
  fixes bitfield :: "'a::len word list"
  assumes "WideBitfieldSetBit bitfield b = Inr bf'"
  shows "length bf' = length bitfield \<and>
         (\<forall>k. k \<noteq> word_index TYPE('a) b \<longrightarrow> bf' ! k = bitfield ! k)"
  using assms
  by (auto simp add: WideBitfieldSetBit_def Let_def split: sum.splits if_splits)

lemma ClearBit_frame:
  fixes bitfield :: "'a::len word list"
  assumes "WideBitfieldClearBit bitfield b = Inr bf'"
  shows "length bf' = length bitfield \<and>
         (\<forall>k. k \<noteq> word_index TYPE('a) b \<longrightarrow> bf' ! k = bitfield ! k)"
  using assms
  by (auto simp add: WideBitfieldClearBit_def Let_def split: sum.splits if_splits)

text \<open>
  The array a completed call leaves has the same length and differs from the one
  before at most at index \<open>b / W\<close>, for every word width; and a call with an
  in-range \<open>b\<close> completes whenever the 32-bit shift that builds the mask is defined.
\<close>

lemma WideBitfield_frame_of_completed_call:
  fixes bitfield :: "'a::len word list"
  shows "(\<forall>bf'. WideBitfieldSetBit bitfield b = Inr bf' \<longrightarrow>
            length bf' = length bitfield \<and>
            (\<forall>k. k \<noteq> unat b div LENGTH('a) \<longrightarrow> bf' ! k = bitfield ! k)) \<and>
         (\<forall>bf'. WideBitfieldClearBit bitfield b = Inr bf' \<longrightarrow>
            length bf' = length bitfield \<and>
            (\<forall>k. k \<noteq> unat b div LENGTH('a) \<longrightarrow> bf' ! k = bitfield ! k)) \<and>
         (unat b < length bitfield * LENGTH('a) \<and> unat b AND (LENGTH('a) - 1) < 32 \<longrightarrow>
            (\<exists>bf'. WideBitfieldSetBit bitfield b = Inr bf') \<and>
            (\<exists>bf'. WideBitfieldClearBit bitfield b = Inr bf'))"
proof (intro conjI allI impI)
  fix bf' assume "WideBitfieldSetBit bitfield b = Inr bf'"
  from SetBit_frame [OF this]
  show "length bf' = length bitfield" "\<And>k. k \<noteq> unat b div LENGTH('a) \<Longrightarrow> bf' ! k = bitfield ! k"
    by (simp_all add: word_index_def)
next
  fix bf' assume "WideBitfieldClearBit bitfield b = Inr bf'"
  from ClearBit_frame [OF this]
  show "length bf' = length bitfield" "\<And>k. k \<noteq> unat b div LENGTH('a) \<Longrightarrow> bf' ! k = bitfield ! k"
    by (simp_all add: word_index_def)
next
  assume a: "unat b < length bitfield * LENGTH('a) \<and> unat b AND (LENGTH('a) - 1) < 32"
  then have idx: "word_index TYPE('a) b < length bitfield"
    by (simp add: word_index_def less_mult_imp_div_less)
  from a obtain m where m: "bit_mask TYPE('a) b = Inr m"
    using bit_mask_defined [of b, where 'a = 'a] by blast
  show "\<exists>bf'. WideBitfieldSetBit bitfield b = Inr bf'"
    using idx m by (simp add: WideBitfieldSetBit_def Let_def)
  show "\<exists>bf'. WideBitfieldClearBit bitfield b = Inr bf'"
    using idx m by (simp add: WideBitfieldClearBit_def Let_def)
qed

text \<open>
  For words of at most 32 bits the shift is always defined, so the frame property
  holds for every bitfield and every in-range bit index, as claim C10 states it.
\<close>

lemma nat_and_le_right: "x AND y \<le> y" for x y :: nat
proof -
  have "int x AND int y \<le> int y"
    by (rule AND_upper2) simp
  then have "int (x AND y) \<le> int y"
    by (simp add: of_nat_and_eq)
  then show ?thesis
    by simp
qed

lemma WideBitfield_frame_narrow:
  fixes bitfield :: "'a::len word list"
  assumes "LENGTH('a) \<le> 32" and "unat b < length bitfield * LENGTH('a)"
  shows "(\<exists>bf'. WideBitfieldSetBit bitfield b = Inr bf' \<and> length bf' = length bitfield \<and>
            (\<forall>k. k \<noteq> unat b div LENGTH('a) \<longrightarrow> bf' ! k = bitfield ! k)) \<and>
         (\<exists>bf'. WideBitfieldClearBit bitfield b = Inr bf' \<and> length bf' = length bitfield \<and>
            (\<forall>k. k \<noteq> unat b div LENGTH('a) \<longrightarrow> bf' ! k = bitfield ! k))"
proof -
  have "unat b AND (LENGTH('a) - 1) \<le> LENGTH('a) - 1"
    by (rule nat_and_le_right)
  with assms(1) have "unat b AND (LENGTH('a) - 1) < 32"
    by simp
  with assms(2) WideBitfield_frame_of_completed_call [of bitfield b] show ?thesis
    by blast
qed


section \<open>Scanning a wide bit-mask\<close>

lemma find_bit_None: "find (bit x) [0..<32] = None \<longleftrightarrow> (x :: 32 word) = 0"
proof
  assume "find (bit x) [0..<32] = None"
  then have "\<forall>n<32. \<not> bit x n"
    by (simp add: find_None_iff)
  then show "x = 0"
    by (intro bit_word_eqI) simp
next
  assume "x = 0"
  then show "find (bit x) [0..<32] = None"
    by (simp add: find_None_iff)
qed

lemma find_bit_Some:
  "find (bit x) [0..<32] = Some i \<Longrightarrow> bit (x :: 32 word) i \<and> i < 32 \<and> (\<forall>j<i. \<not> bit x j)"
  by (auto simp add: find_Some_iff)

lemma builtin_ffs_zero: "builtin_ffs x = 0 \<longleftrightarrow> x = 0"
proof (cases "find (bit x) [0..<32]")
  case None
  then show ?thesis
    by (simp add: builtin_ffs_def find_bit_None [symmetric])
next
  case (Some i)
  then have i: "bit x i" "i < 32"
    using find_bit_Some by blast+
  then have "x \<noteq> 0"
    by auto
  moreover have "unat (of_nat (Suc i) :: 32 word) = Suc i mod 2 ^ LENGTH(32)"
    by (rule unat_of_nat)
  then have "unat (of_nat (Suc i) :: 32 word) = Suc i"
    using i(2) by simp
  then have "(of_nat (Suc i) :: 32 word) \<noteq> 0"
    by (metis Zero_not_Suc unsigned_0)
  ultimately show ?thesis
    using Some by (simp add: builtin_ffs_def)
qed

lemma builtin_ffs_least:
  assumes "x \<noteq> 0"
  shows "builtin_ffs x - 1 = of_nat (LEAST i. bit x i)"
proof (cases "find (bit x) [0..<32]")
  case None
  with assms show ?thesis
    by (simp add: find_bit_None)
next
  case (Some i)
  then have i: "bit x i" "\<forall>j<i. \<not> bit x j"
    using find_bit_Some by blast+
  then have "(LEAST i. bit x i) = i"
    by (intro Least_equality) (auto simp add: not_less [symmetric])
  then show ?thesis
    using Some by (simp add: builtin_ffs_def)
qed

lemma first_nonzero_finds:
  "index \<le> k \<Longrightarrow> k < length bitmask \<Longrightarrow> bitmask ! k \<noteq> 0
     \<Longrightarrow> first_nonzero bitmask index < length bitmask"
proof (induction bitmask index rule: first_nonzero.induct)
  case (1 bitmask index)
  show ?case
  proof (cases "bitmask ! index = 0")
    case True
    with "1.prems" have "index \<noteq> k"
      by auto
    with "1.prems" have lt: "index + 1 \<le> k" "index + 1 < length bitmask" "index < length bitmask"
      by simp_all
    then have "first_nonzero bitmask (index + 1) < length bitmask"
      using "1.IH" True "1.prems" by simp
    then show ?thesis
      using True lt by (subst first_nonzero.simps) simp
  next
    case False
    with "1.prems" show ?thesis
      by (subst first_nonzero.simps) simp
  qed
qed

lemma scan_words_none:
  "maskIndex < length bitmask \<Longrightarrow>
   \<forall>k. maskIndex \<le> k \<and> k < length bitmask \<longrightarrow> bitmask ! k = 0 \<Longrightarrow>
   scan_words bitmask maskIndex = Inr (False, 0)"
proof (induction bitmask maskIndex rule: scan_words.induct)
  case (1 bitmask maskIndex)
  have zero: "bitmask ! maskIndex = 0"
    using "1.prems" by simp
  then have ffs: "builtin_ffs (ucast (bitmask ! maskIndex)) = 0"
    by (simp add: builtin_ffs_zero)
  show ?case
  proof (cases "maskIndex + 1 < length bitmask")
    case True
    have "scan_words bitmask (maskIndex + 1) = Inr (False, 0)"
      using "1.IH" [OF _ refl ffs True] "1.prems" True by simp
    then show ?thesis
      using "1.prems"(1) ffs True by (subst scan_words.simps) (simp add: Let_def)
  next
    case False
    then show ?thesis
      using "1.prems"(1) ffs by (subst scan_words.simps) (simp add: Let_def)
  qed
qed

lemma bit_ucast_32:
  "LENGTH('a::len) \<le> 32 \<Longrightarrow> bit (ucast (w :: 'a word) :: 32 word) n = bit w n"
  by (auto simp add: bit_ucast_iff dest: bit_imp_le_length)

lemma ucast_32_zero:
  "LENGTH('a::len) \<le> 32 \<Longrightarrow> (ucast (w :: 'a word) :: 32 word) = 0 \<longleftrightarrow> w = 0"
  by (auto simp add: bit_eq_iff bit_ucast_32 dest: bit_imp_le_length)

lemma wide_bit_in_word:
  fixes bitmask :: "'a::len word list"
  assumes "k < length bitmask" "n < LENGTH('a)"
  shows "wide_bit bitmask (k * LENGTH('a) + n) = bit (bitmask ! k) n"
proof -
  have "k * LENGTH('a) + n < Suc k * LENGTH('a)"
    using assms(2) by simp
  also have "\<dots> \<le> length bitmask * LENGTH('a)"
    using assms(1) by (intro mult_le_mono1) simp
  finally show ?thesis
    using assms(2) by (simp add: wide_bit_def)
qed

lemma wide_bit_word:
  fixes bitmask :: "'a::len word list"
  assumes "wide_bit bitmask i"
  shows "i div LENGTH('a) < length bitmask \<and> bitmask ! (i div LENGTH('a)) \<noteq> 0"
proof -
  from assms have "i < length bitmask * LENGTH('a)" "bit (bitmask ! (i div LENGTH('a))) (i mod LENGTH('a))"
    by (simp_all add: wide_bit_def)
  then show ?thesis
    by (auto simp add: less_mult_imp_div_less)
qed

lemma scan_words_some:
  fixes bitmask :: "'a::len word list"
  assumes len: "LENGTH('a) \<le> 32"
  shows "maskIndex < length bitmask \<Longrightarrow>
     \<exists>k. maskIndex \<le> k \<and> k < length bitmask \<and> bitmask ! k \<noteq> 0 \<Longrightarrow>
     scan_words bitmask maskIndex =
       Inr (True, of_nat (LEAST i. maskIndex * LENGTH('a) \<le> i \<and> wide_bit bitmask i))"
proof (induction bitmask maskIndex rule: scan_words.induct)
  case (1 bitmask maskIndex)
  let ?W = "LENGTH('a)"
  let ?w = "bitmask ! maskIndex"
  show ?case
  proof (cases "?w = 0")
    case True
    then have ffs: "builtin_ffs (ucast ?w) = 0"
      by (simp add: builtin_ffs_zero)
    from "1.prems"(2) obtain k where k: "maskIndex \<le> k" "k < length bitmask" "bitmask ! k \<noteq> 0"
      by blast
    with True have "maskIndex \<noteq> k"
      by auto
    with k have next_ok: "maskIndex + 1 < length bitmask" "maskIndex + 1 \<le> k"
      by simp_all
    have same: "(maskIndex * ?W \<le> i \<and> wide_bit bitmask i) =
                ((maskIndex + 1) * ?W \<le> i \<and> wide_bit bitmask i)" for i
    proof (cases "wide_bit bitmask i \<and> maskIndex * ?W \<le> i")
      case False
      then show ?thesis
        by auto
    next
      case wb: True
      then have "bitmask ! (i div ?W) \<noteq> 0"
        using wide_bit_word by blast
      with True have "i div ?W \<noteq> maskIndex"
        by auto
      moreover from wb have "maskIndex \<le> i div ?W"
        by (simp add: less_eq_div_iff_mult_less_eq)
      ultimately have "maskIndex + 1 \<le> i div ?W"
        by simp
      then have "(maskIndex + 1) * ?W \<le> i"
        by (simp add: less_eq_div_iff_mult_less_eq)
      with wb show ?thesis
        by simp
    qed
    have "scan_words bitmask (maskIndex + 1) =
            Inr (True, of_nat (LEAST i. (maskIndex + 1) * ?W \<le> i \<and> wide_bit bitmask i))"
      using "1.IH" [OF _ refl ffs next_ok(1)] "1.prems"(1) next_ok k by auto
    then show ?thesis
      using "1.prems"(1) ffs next_ok(1) same
      by (subst scan_words.simps) (simp add: Let_def)
  next
    case False
    define l where "l = (LEAST i. bit ?w i)"
    from False obtain n where "bit ?w n"
      by (auto simp add: bit_eq_iff)
    then have l: "bit ?w l" "\<And>j. bit ?w j \<Longrightarrow> l \<le> j"
      unfolding l_def by (auto intro: LeastI Least_le)
    then have lW: "l < ?W"
      by (auto dest: bit_imp_le_length)
    have nz: "(ucast ?w :: 32 word) \<noteq> 0"
      using False len by (simp add: ucast_32_zero)
    then have ffs: "builtin_ffs (ucast ?w) \<noteq> 0"
      by (simp add: builtin_ffs_zero)
    have "(LEAST i. bit (ucast ?w :: 32 word) i) = l"
      unfolding l_def using len by (simp add: bit_ucast_32)
    with nz have pos: "builtin_ffs (ucast ?w) - 1 = of_nat l"
      by (simp add: builtin_ffs_least)
    have least: "(LEAST i. maskIndex * ?W \<le> i \<and> wide_bit bitmask i) = maskIndex * ?W + l"
    proof (rule Least_equality)
      show "maskIndex * ?W \<le> maskIndex * ?W + l \<and> wide_bit bitmask (maskIndex * ?W + l)"
        using "1.prems"(1) lW l(1) by (simp add: wide_bit_in_word)
    next
      fix i assume i: "maskIndex * ?W \<le> i \<and> wide_bit bitmask i"
      show "maskIndex * ?W + l \<le> i"
      proof (cases "i div ?W = maskIndex")
        case True
        with i have "bit ?w (i mod ?W)"
          by (simp add: wide_bit_def)
        then have "l \<le> i mod ?W"
          by (rule l(2))
        moreover have "i = maskIndex * ?W + i mod ?W"
          using True by (metis div_mult_mod_eq)
        ultimately show ?thesis
          by linarith
      next
        case False
        moreover from i have "maskIndex \<le> i div ?W"
          by (simp add: less_eq_div_iff_mult_less_eq)
        ultimately have "maskIndex + 1 \<le> i div ?W"
          by simp
        then have "(maskIndex + 1) * ?W \<le> i"
          by (simp add: less_eq_div_iff_mult_less_eq)
        with lW show ?thesis
          by simp
      qed
    qed
    have "scan_words bitmask maskIndex =
            Inr (True, (builtin_ffs (ucast ?w) - 1) + of_nat (maskIndex * ?W))"
      using "1.prems"(1) ffs by (subst scan_words.simps) (simp add: Let_def)
    also have "(builtin_ffs (ucast ?w) - 1) + of_nat (maskIndex * ?W)
                 = (of_nat (maskIndex * ?W + l) :: 32 word)"
      unfolding pos by simp
    finally show ?thesis
      unfolding least .
  qed
qed

lemma bit70_only: "wide_bit [0, 0, 64 :: 32 word] i \<longleftrightarrow> i = 70"
proof -
  have b: "bit (64 :: 32 word) n \<longleftrightarrow> n = 6" for n
  proof -
    have "(64 :: 32 word) = 2 ^ 6"
      by simp
    then show ?thesis
      by (simp only: bit_exp_iff) auto
  qed
  consider "i div 32 = 0" | "i div 32 = 1" | "i div 32 = 2" | "3 \<le> i div 32"
    by linarith
  then show ?thesis
  proof cases
    case 1
    then show ?thesis by (auto simp add: wide_bit_def)
  next
    case 2
    then show ?thesis by (auto simp add: wide_bit_def)
  next
    case 3
    have "i = 32 * (i div 32) + i mod 32"
      by simp
    with 3 have "i = 64 + i mod 32"
      by simp
    then have "i mod 32 = 6 \<longleftrightarrow> i = 70"
      by linarith
    moreover have "i < 96"
      using 3 by linarith
    ultimately show ?thesis
      using 3 b [of "i mod 32"] by (simp add: wide_bit_def)
  next
    case 4
    then have "96 \<le> i"
      by linarith
    then show ?thesis
      by (simp add: wide_bit_def)
  qed
qed

text \<open>
  With only bit 70 set in a bitfield of 3 words of 32 bits, a call with \<open>*pIndex = 71\<close>
  does not return false: it starts at word 2, the word that holds position 71, and
  finds bit 70 again.
\<close>

theorem WideBitMaskScanForward_bit70_from_71:
  "WideBitMaskScanForward 71 [0, 0, 0x40 :: 32 word] = Inr (True, 70)"
  by code_simp

text \<open>
  Claim C1, as amended. For a wide bitfield of 3 words of 32 bits in which only bit 70
  is set, \<open>WideBitMaskScanForward\<close> called with \<open>*pIndex = 0\<close> returns true and leaves
  \<open>*pIndex = 70\<close>, and so does a call with \<open>*pIndex = 71\<close>. In general, for words of at
  most 32 bits and \<open>*pIndex\<close> in range, the scan starts at the word that contains the
  position stored in \<open>*pIndex\<close>: it finds the least-significant set bit at or after
  the first bit of that word, and it returns false exactly when no word from that
  one on has a set bit.
\<close>

theorem WideBitMaskScanForward_word_granular:
  fixes bitmask :: "'a::len word list"
  assumes "LENGTH('a) \<le> 32"
    and "unat pIndex < length bitmask * LENGTH('a)"
    and "length bitmask * LENGTH('a) \<le> 2 ^ 32"
  shows "if \<exists>i. unat pIndex div LENGTH('a) * LENGTH('a) \<le> i \<and> wide_bit bitmask i
         then \<exists>q. WideBitMaskScanForward pIndex bitmask = Inr (True, q) \<and>
                unat q = (LEAST i. unat pIndex div LENGTH('a) * LENGTH('a) \<le> i \<and>
                             wide_bit bitmask i)
         else \<exists>q. WideBitMaskScanForward pIndex bitmask = Inr (False, q)"
proof -
  let ?W = "LENGTH('a)"
  let ?m = "unat pIndex div ?W"
  let ?P = "\<lambda>i. ?m * ?W \<le> i \<and> wide_bit bitmask i"
  have m: "?m < length bitmask"
    using assms(2) by (simp add: less_mult_imp_div_less)
  then have ne: "bitmask \<noteq> []"
    by auto
  show ?thesis
  proof (cases "\<exists>i. ?P i")
    case True
    then obtain i where i: "?P i"
      by blast
    then have k: "i div ?W < length bitmask" "bitmask ! (i div ?W) \<noteq> 0"
      using wide_bit_word by blast+
    from i have mk: "?m \<le> i div ?W"
      by (simp add: less_eq_div_iff_mult_less_eq)
    have "first_nonzero bitmask 0 < length bitmask"
      using first_nonzero_finds [OF _ k] by simp
    then have "WideBitMaskScanForward pIndex bitmask = scan_words bitmask ?m"
      using ne by (simp add: WideBitMaskScanForward_def word_index_def Let_def)
    also have "\<dots> = Inr (True, of_nat (LEAST i. ?P i))"
      using scan_words_some [OF assms(1) m] k mk by blast
    finally have r: "WideBitMaskScanForward pIndex bitmask = Inr (True, of_nat (LEAST i. ?P i))" .
    have "wide_bit bitmask (LEAST i. ?P i)"
      using LeastI [of ?P, OF i] by simp
    then have "(LEAST i. ?P i) < length bitmask * ?W"
      by (simp add: wide_bit_def)
    with assms(3) have "(LEAST i. ?P i) < 2 ^ LENGTH(32)"
      by simp
    then have "unat (of_nat (LEAST i. ?P i) :: 32 word) = (LEAST i. ?P i)"
      by (simp only: unat_of_nat mod_less)
    with r True show ?thesis
      by auto
  next
    case False
    have zero: "\<forall>k. ?m \<le> k \<and> k < length bitmask \<longrightarrow> bitmask ! k = 0"
    proof (intro allI impI, rule ccontr)
      fix k assume k: "?m \<le> k \<and> k < length bitmask" and "bitmask ! k \<noteq> 0"
      then obtain n where n: "bit (bitmask ! k) n"
        by (auto simp add: bit_eq_iff)
      then have "n < ?W"
        by (auto dest: bit_imp_le_length)
      with n k have "wide_bit bitmask (k * ?W + n)"
        by (simp add: wide_bit_in_word)
      moreover have "?m * ?W \<le> k * ?W + n"
        using k by (simp add: trans_le_add1)
      ultimately show False
        using False by blast
    qed
    have "scan_words bitmask ?m = Inr (False, 0)"
      using scan_words_none [OF m zero] .
    then have "\<exists>q. WideBitMaskScanForward pIndex bitmask = Inr (False, q)"
      using ne by (simp add: WideBitMaskScanForward_def word_index_def Let_def)
    with False show ?thesis
      by auto
  qed
qed

theorem WideBitMaskScanForward_word_granular_witness:
  "LENGTH(32) \<le> 32 \<and> unat (71 :: 32 word) < length [0, 0, 64 :: 32 word] * LENGTH(32) \<and>
   length [0, 0, 64 :: 32 word] * LENGTH(32) \<le> 2 ^ 32 \<and>
   wide_bit [0, 0, 64 :: 32 word] 70 \<and>
   (LEAST i. unat (71 :: 32 word) div LENGTH(32) * LENGTH(32) \<le> i \<and>
             wide_bit [0, 0, 64 :: 32 word] i) = 70 \<and>
   (LEAST i. unat (0 :: 32 word) div LENGTH(32) * LENGTH(32) \<le> i \<and>
             wide_bit [0, 0, 64 :: 32 word] i) = 70 \<and>
   WideBitMaskScanForward 0 [0, 0, 64 :: 32 word] = Inr (True, 70) \<and>
   WideBitMaskScanForward 71 [0, 0, 64 :: 32 word] = Inr (True, 70)"
proof -
  let ?bm = "[0, 0, 64 :: 32 word]"
  have q70: "unat q = 70 \<longleftrightarrow> q = 70" for q :: "32 word"
    by (simp add: word_unat_eq_iff)
  have least71: "(LEAST i. unat (71 :: 32 word) div LENGTH(32) * LENGTH(32) \<le> i \<and>
             wide_bit ?bm i) = 70"
    by (rule Least_equality) (simp_all add: bit70_only)
  have least0: "(LEAST i. unat (0 :: 32 word) div LENGTH(32) * LENGTH(32) \<le> i \<and>
             wide_bit ?bm i) = 70"
    by (rule Least_equality) (simp_all add: bit70_only)
  have ex71: "\<exists>i. unat (71 :: 32 word) div LENGTH(32) * LENGTH(32) \<le> i \<and> wide_bit ?bm i"
    by (rule exI [of _ 70]) (simp add: bit70_only)
  have ex0: "\<exists>i. unat (0 :: 32 word) div LENGTH(32) * LENGTH(32) \<le> i \<and> wide_bit ?bm i"
    by (rule exI [of _ 70]) (simp add: bit70_only)
  have "\<exists>q. WideBitMaskScanForward 71 ?bm = Inr (True, q) \<and> unat q = 70"
    using WideBitMaskScanForward_word_granular [of 71 ?bm] ex71
    unfolding least71 by simp
  then have r71: "WideBitMaskScanForward 71 ?bm = Inr (True, 70)"
    unfolding q70 by simp
  have "\<exists>q. WideBitMaskScanForward 0 ?bm = Inr (True, q) \<and> unat q = 70"
    using WideBitMaskScanForward_word_granular [of 0 ?bm] ex0
    unfolding least0 by simp
  then have r0: "WideBitMaskScanForward 0 ?bm = Inr (True, 70)"
    unfolding q70 by simp
  show ?thesis
    using least71 least0 r0 r71 by (simp add: bit70_only)
qed

section \<open>Powers of two\<close>

lemma nat_and_pred_zero_pow2:
  "0 < n \<Longrightarrow> n AND (n - 1) = 0 \<Longrightarrow> \<exists>k. n = 2 ^ k" for n :: nat
proof (induction n rule: less_induct)
  case (less n)
  have rec: "n AND (n - 1) = 2 * ((n div 2) AND ((n - 1) div 2))"
    by (subst and_rec) auto
  show ?case
  proof (cases "even n")
    case True
    with less.prems(1) have m: "0 < n div 2" "n div 2 < n" "(n - 1) div 2 = n div 2 - 1"
      by (auto elim!: evenE)
    with rec less.prems(2) have "(n div 2) AND (n div 2 - 1) = 0"
      by simp
    from less.IH [OF m(2) m(1) this] obtain k where "n div 2 = 2 ^ k"
      by blast
    with True have "n = 2 ^ Suc k"
      by auto
    then show ?thesis
      by blast
  next
    case False
    then have "(n - 1) div 2 = n div 2"
      by (auto elim!: oddE)
    with rec less.prems(2) have "n div 2 = 0"
      by simp
    with False have "n = 2 ^ 0"
      by (auto elim!: oddE)
    then show ?thesis
      by blast
  qed
qed

lemma pow2_and_pred: "(2 ^ k :: 'a::len word) AND (2 ^ k - 1) = 0"
proof -
  have "(2 ^ k :: 'a word) AND mask k = 0"
    by (rule bit_word_eqI) (auto simp add: bit_simps)
  then show ?thesis
    by (simp add: mask_eq_exp_minus_1)
qed

lemma IsPowerOfTwo_iff: "IsPowerOfTwo v \<longleftrightarrow> (\<exists>k<64. v = 2 ^ k)"
proof
  assume "IsPowerOfTwo v"
  then have nz: "v \<noteq> 0" and z: "v AND (v - 1) = 0"
    by (auto simp add: IsPowerOfTwo_def split: if_splits)
  from nz have pos: "0 < unat v"
    by (simp add: unat_gt_0)
  have "unat v AND (unat v - 1) = unat (v AND (v - 1))"
    using nz by (simp add: unsigned_and_eq unat_minus_one)
  with z have "unat v AND (unat v - 1) = 0"
    by simp
  from nat_and_pred_zero_pow2 [OF pos this] obtain k where k: "unat v = 2 ^ k"
    by blast
  have "unat v < 2 ^ LENGTH(64)"
    by (rule unsigned_less)
  then have "(2::nat) ^ k < 2 ^ LENGTH(64)"
    unfolding k .
  then have "k < LENGTH(64)"
    by (rule power_less_imp_less_exp [rotated]) simp
  then have "k < 64"
    by simp
  moreover have "v = of_nat (unat v)"
    by simp
  then have "v = 2 ^ k"
    unfolding k by simp
  ultimately show "\<exists>k<64. v = 2 ^ k"
    by blast
next
  assume "\<exists>k<64. v = 2 ^ k"
  then obtain k where k: "k < 64" "v = 2 ^ k"
    by blast
  then have "v \<noteq> 0"
    by simp
  then show "IsPowerOfTwo v"
    using k(2) by (simp add: IsPowerOfTwo_def pow2_and_pred)
qed

section \<open>Alignment\<close>

lemma ucast_pow2: "(ucast (2 ^ k :: 64 word) :: 'a::len word) = (if k < 64 then 2 ^ k else 0)"
  by (rule bit_word_eqI) (auto simp add: bit_simps)

lemma Pow2Align_pow2:
  "k < 64 \<Longrightarrow> Pow2Align (v :: 'a::len word) (2 ^ k) = Inr ((v + mask k) AND NOT (mask k))"
proof -
  assume k: "k < 64"
  then have "IsPowerOfTwo (2 ^ k)"
    using IsPowerOfTwo_iff by blast
  then have "Pow2Align v (2 ^ k) = Inr ((v + 2 ^ k - 1) AND NOT (2 ^ k - 1))"
    using k by (simp add: Pow2Align_def ucast_pow2)
  moreover have "v + 2 ^ k - 1 = v + mask k" "(2 ^ k - 1 :: 'a word) = mask k"
    by (simp_all add: mask_eq_exp_minus_1)
  ultimately show ?thesis
    by (simp only:)
qed

lemma align_idem:
  "(((x AND NOT (mask k)) + mask k) AND NOT (mask k)) = x AND NOT (mask k)"
  for x :: "'a::len word"
proof -
  have "(x AND NOT (mask k)) + mask k = (x AND NOT (mask k)) OR mask k"
    by (rule disjunctive_add) (auto simp add: bit_simps)
  also have "\<dots> AND NOT (mask k) = x AND NOT (mask k)"
    by (rule bit_word_eqI) (auto simp add: bit_simps)
  finally show ?thesis .
qed

lemma unat_and_not_mask:
  "unat (x AND NOT (mask k)) = unat x - unat x mod 2 ^ k" for x :: "'a::len word"
proof -
  have "x AND NOT (mask k) = push_bit k (drop_bit k x)"
    by (rule bit_word_eqI) (auto simp add: bit_simps)
  moreover have "2 ^ k * (unat x div 2 ^ k) \<le> unat x"
    by simp
  then have "2 ^ k * (unat x div 2 ^ k) < 2 ^ LENGTH('a)"
    using unsigned_less [of x, where 'a = nat] by (rule le_less_trans)
  then have "(2 ^ k * (unat x div 2 ^ k)) mod 2 ^ LENGTH('a) = 2 ^ k * (unat x div 2 ^ k)"
    by simp
  moreover have "unat (push_bit k (drop_bit k x))
                   = take_bit LENGTH('a) (push_bit k (unat (drop_bit k x)))"
    by (rule unsigned_push_bit_eq)
  then have "unat (push_bit k (drop_bit k x)) = (2 ^ k * (unat x div 2 ^ k)) mod 2 ^ LENGTH('a)"
    by (simp only: unat_drop_bit_div push_bit_eq_mult take_bit_eq_mod mult.commute)
  moreover have "2 ^ k * (unat x div 2 ^ k) = unat x - unat x mod 2 ^ k"
    by (simp add: minus_mod_eq_mult_div)
  ultimately show ?thesis
    by simp
qed

lemma unat_pow2: "k < LENGTH('a) \<Longrightarrow> unat (2 ^ k :: 'a::len word) = 2 ^ k"
proof -
  assume "k < LENGTH('a)"
  then have "(2::nat) ^ k < 2 ^ LENGTH('a)"
    by simp
  moreover have "unat (of_nat (2 ^ k) :: 'a word) = 2 ^ k mod 2 ^ LENGTH('a)"
    by (rule unat_of_nat)
  ultimately show ?thesis
    by simp
qed

lemma unat_mask_le: "k \<le> LENGTH('a) \<Longrightarrow> unat (mask k :: 'a::len word) = 2 ^ k - 1"
proof -
  assume "k \<le> LENGTH('a)"
  then have "(2::nat) ^ k \<le> 2 ^ LENGTH('a)"
    by (intro power_increasing) simp_all
  moreover have "0 < (2::nat) ^ k"
    by simp
  ultimately have "(2::nat) ^ k - 1 < 2 ^ LENGTH('a)"
    by linarith
  moreover have "unat (of_nat (mask k) :: 'a word) = mask k mod 2 ^ LENGTH('a)"
    by (rule unat_of_nat)
  ultimately show ?thesis
    by (simp add: of_nat_mask_eq mask_eq_exp_minus_1)
qed

text \<open>
  Claim C7, as amended. For every value \<open>v\<close> and every power-of-two alignment \<open>a\<close>,
  \<open>Pow2Align\<close> is idempotent, \<open>Pow2Align(Pow2Align(v, a), a) = Pow2Align(v, a)\<close>, and
  its result satisfies \<open>Pow2Align(v, a) % a = 0\<close>; and \<open>Pow2Align(v, a) \<ge> v\<close> whenever
  \<open>v + a - 1\<close> does not exceed the largest value of the type \<open>T\<close> of \<open>v\<close>.
\<close>

theorem Pow2Align_properties:
  fixes v :: "'a::len word"
  assumes "IsPowerOfTwo a"
  shows "\<exists>r. Pow2Align v a = Inr r \<and> Pow2Align r a = Inr r \<and> unat r mod unat a = 0 \<and>
             (unat v + unat a - 1 < 2 ^ LENGTH('a) \<longrightarrow> v \<le> r)"
proof -
  from assms obtain k where k: "k < 64" "a = 2 ^ k"
    using IsPowerOfTwo_iff by blast
  define x where "x = v + mask k"
  define r where "r = x AND NOT (mask k)"
  have ua: "unat a = 2 ^ k"
    using k by (simp add: unat_pow2)
  have r1: "Pow2Align v a = Inr r"
    using k by (simp add: Pow2Align_pow2 r_def x_def)
  have r2: "Pow2Align r a = Inr r"
    using k by (simp add: Pow2Align_pow2 r_def align_idem)
  have ur: "unat r = unat x - unat x mod 2 ^ k"
    by (simp add: r_def unat_and_not_mask)
  then have "unat r = 2 ^ k * (unat x div 2 ^ k)"
    by (simp add: minus_mod_eq_mult_div)
  then have r3: "unat r mod unat a = 0"
    by (simp add: ua)
  have r4: "v \<le> r" if no_wrap: "unat v + unat a - 1 < 2 ^ LENGTH('a)"
  proof -
    have "(2::nat) ^ k - 1 < 2 ^ LENGTH('a)"
      using no_wrap ua by simp
    moreover have "0 < (2::nat) ^ LENGTH('a)" "(2::nat) ^ Suc LENGTH('a) = 2 * 2 ^ LENGTH('a)"
      by simp_all
    ultimately have "(2::nat) ^ k < 2 ^ Suc LENGTH('a)"
      by linarith
    then have "k < Suc LENGTH('a)"
      by (rule power_less_imp_less_exp [rotated]) simp
    then have "k \<le> LENGTH('a)"
      by simp
    then have um: "unat (mask k :: 'a word) = 2 ^ k - 1"
      by (rule unat_mask_le)
    have "unat v + unat (mask k :: 'a word) < 2 ^ LENGTH('a)"
      using no_wrap ua um by simp
    then have "unat (v + mask k) = unat v + unat (mask k :: 'a word)"
      by (rule unat_add_lem [THEN iffD1])
    then have ux: "unat x = unat v + (2 ^ k - 1)"
      unfolding x_def um .
    have m: "unat x mod 2 ^ k < 2 ^ k"
      by simp
    have "V \<le> X - m" if "m < p" "X = V + (p - 1)" for V X m p :: nat
      using that by linarith
    from this [OF m ux] have "unat v \<le> unat r"
      unfolding ur .
    then show ?thesis
      by (simp add: word_le_nat_alt)
  qed
  show ?thesis
    using r1 r2 r3 r4 by (intro exI [of _ r]) simp
qed

theorem Pow2Align_properties_witness:
  "IsPowerOfTwo 4 \<and> Pow2Align (5 :: 32 word) 4 = Inr 8 \<and> Pow2Align (8 :: 32 word) 4 = Inr 8 \<and>
   unat (8 :: 32 word) mod unat (4 :: 64 word) = 0 \<and>
   unat (5 :: 32 word) + unat (4 :: 64 word) - 1 < 2 ^ LENGTH(32) \<and> (5 :: 32 word) \<le> 8"
  using Pow2Align_properties [of 4 "5 :: 32 word"]
  by (simp add: Pow2Align_def IsPowerOfTwo_def)

text \<open>
  Where \<open>v + a - 1\<close> wraps, the result is below \<open>v\<close>: aligning the \<open>uint32\<close>
  \<open>0xFFFFFFFF\<close> to 4 gives 0.
\<close>

theorem Pow2Align_wraps_below_value:
  "IsPowerOfTwo 4 \<and> Pow2Align (0xFFFFFFFF :: 32 word) 4 = Inr 0 \<and>
   \<not> (0xFFFFFFFF :: 32 word) \<le> 0"
  by (simp add: Pow2Align_def IsPowerOfTwo_def)

section \<open>Padding to a power of two\<close>

lemma Pow2Pad_loop_result:
  assumes "Pow2Pad_loop v ret = Some y"
  shows "\<not> y < v \<and> (\<exists>n. y = push_bit n ret)"
proof -
  have step: "\<not> y' < v' \<and> (\<exists>n. y' = push_bit n r')"
    if IH: "\<And>a b c. f a b = Some c \<Longrightarrow> \<not> c < a \<and> (\<exists>n. c = push_bit n b)"
      and eq: "(if r' < v' then f v' (push_bit 1 r') else Some r') = Some y'"
    for f and v' r' y' :: "'a word"
  proof (cases "r' < v'")
    case True
    with eq have "f v' (push_bit 1 r') = Some y'"
      by simp
    from IH [OF this] obtain n where n: "\<not> y' < v'" "y' = push_bit n (push_bit 1 r')"
      by blast
    have "push_bit n (push_bit 1 r') = push_bit (n + 1) r'"
      by (simp add: push_bit_eq_mult mult.assoc mult.commute)
    with n show ?thesis
      by metis
  next
    case False
    with eq have "y' = r'"
      by simp
    with False show ?thesis
      by (auto intro: exI [of _ 0])
  qed
  show ?thesis
    by (rule Pow2Pad_loop.raw_induct
          [where P = "\<lambda>v ret y. \<not> y < v \<and> (\<exists>n. y = push_bit n ret)", OF step assms])
qed

lemma pow2_below_top: "(push_bit n 1 :: 32 word) < 0x80000001"
proof (cases "n < 32")
  case True
  then have "(2::nat) ^ n \<le> 2 ^ 31"
    by (intro power_increasing) simp_all
  moreover have "unat (2 ^ n :: 32 word) = 2 ^ n"
    using True by (simp add: unat_pow2)
  ultimately show ?thesis
    by (simp add: word_less_nat_alt)
next
  case False
  then have "(push_bit n 1 :: 32 word) = 0"
    by (simp add: push_bit_eq_mult)
  then show ?thesis
    by (simp only:) simp
qed

text \<open>
  A \<open>uint32\<close> above \<open>2 ^ 31\<close> that is not a power of two has no power of two at or
  above it in its type: for \<open>0x80000001\<close> the loop shifts \<open>ret\<close> to 0 and never ends.
\<close>

theorem Pow2Pad_above_top_bit_diverges: "Pow2Pad (0x80000001 :: 32 word) = None"
proof -
  have "Pow2Pad_loop (0x80000001 :: 32 word) 1 = None"
  proof (cases "Pow2Pad_loop (0x80000001 :: 32 word) 1")
    case None
    then show ?thesis .
  next
    case (Some y)
    from Pow2Pad_loop_result [OF this] pow2_below_top show ?thesis
      by blast
  qed
  then show ?thesis
    by (simp add: Pow2Pad_def IsPowerOfTwo_def)
qed

lemma Pow2Pad_loop_pow2:
  fixes v :: "'a::len word"
  assumes v: "unat v \<le> 2 ^ (LENGTH('a) - 1)"
  shows "j < LENGTH('a) \<Longrightarrow> \<forall>i<j. 2 ^ i < unat v \<Longrightarrow>
         \<exists>k<LENGTH('a). Pow2Pad_loop v (2 ^ j) = Some (2 ^ k) \<and> unat v \<le> 2 ^ k \<and>
                          (\<forall>i<k. 2 ^ i < unat v)"
proof (induction "LENGTH('a) - j" arbitrary: j)
  case 0
  then show ?case
    by simp
next
  case (Suc n)
  have uj: "unat (2 ^ j :: 'a word) = 2 ^ j"
    using Suc.prems(1) by (rule unat_pow2)
  show ?case
  proof (cases "(2 ^ j :: 'a word) < v")
    case True
    then have lt: "2 ^ j < unat v"
      by (simp add: word_less_nat_alt uj)
    from lt v have "(2::nat) ^ j < 2 ^ (LENGTH('a) - 1)"
      by (rule less_le_trans)
    then have "j < LENGTH('a) - 1"
      by (rule power_less_imp_less_exp [rotated]) simp
    then have j1: "Suc j < LENGTH('a)"
      by simp
    have n: "n = LENGTH('a) - Suc j"
      using Suc.hyps(2) by simp
    have all: "\<forall>i<Suc j. 2 ^ i < unat v"
      using Suc.prems(2) lt by (auto simp add: less_Suc_eq)
    from Suc.hyps(1) [OF n j1 all] obtain k where
      k: "k < LENGTH('a)" "Pow2Pad_loop v (2 ^ Suc j) = Some (2 ^ k)" "unat v \<le> 2 ^ k"
         "\<forall>i<k. 2 ^ i < unat v"
      by blast
    have "push_bit 1 (2 ^ j :: 'a word) = 2 ^ Suc j"
      by (simp add: push_bit_eq_mult)
    then have "Pow2Pad_loop v (2 ^ j) = Pow2Pad_loop v (2 ^ Suc j)"
      using True by (subst Pow2Pad_loop.simps) (simp only: if_True)
    with k show ?thesis
      by auto
  next
    case False
    then have "unat v \<le> 2 ^ j"
      by (simp add: word_less_nat_alt uj not_less)
    moreover have "Pow2Pad_loop v (2 ^ j) = Some (2 ^ j)"
      using False by (subst Pow2Pad_loop.simps) (simp only: if_False)
    ultimately show ?thesis
      using Suc.prems by blast
  qed
qed

lemma ucast_64_pow2:
  fixes v :: "'a::len word"
  assumes "LENGTH('a) \<le> 64" "(ucast v :: 64 word) = 2 ^ k" "k < 64"
  shows "k < LENGTH('a) \<and> v = 2 ^ k"
proof -
  have "unat v < 2 ^ LENGTH('a)"
    by (rule unsigned_less)
  also have "(2::nat) ^ LENGTH('a) \<le> 2 ^ 64"
    using assms(1) by (intro power_increasing) simp_all
  finally have "unat (ucast v :: 64 word) = unat v"
    by (simp add: unsigned_ucast_eq take_bit_nat_eq_self)
  moreover have "unat (2 ^ k :: 64 word) = 2 ^ k"
    using assms(3) by (simp add: unat_pow2)
  ultimately have u: "unat v = 2 ^ k"
    using assms(2) by simp
  have "unat v < 2 ^ LENGTH('a)"
    by (rule unsigned_less)
  then have "(2::nat) ^ k < 2 ^ LENGTH('a)"
    unfolding u .
  then have "k < LENGTH('a)"
    by (rule power_less_imp_less_exp [rotated]) simp
  moreover have "v = of_nat (unat v)"
    by simp
  then have "v = 2 ^ k"
    unfolding u by simp
  ultimately show ?thesis
    by simp
qed

text \<open>
  Claim C6, as amended. For every unsigned value \<open>v\<close> of a \<open>W\<close>-bit type with
  \<open>1 \<le> v \<le> 2 ^ (W - 1)\<close>, \<open>Pow2Pad(v)\<close> returns the smallest power of two that is
  greater than or equal to \<open>v\<close> (so \<open>Pow2Pad(1) = 1\<close>, \<open>Pow2Pad(5) = 8\<close>,
  \<open>Pow2Pad(8) = 8\<close>), and \<open>Pow2Pad(0)\<close> returns 1.
\<close>

theorem Pow2Pad_smallest_power_of_two:
  fixes v :: "'a::len word"
  assumes "LENGTH('a) \<le> 64"
  shows "Pow2Pad (0 :: 'a word) = Some 1 \<and>
         (1 \<le> v \<and> unat v \<le> 2 ^ (LENGTH('a) - 1) \<longrightarrow>
            (\<exists>k<LENGTH('a). Pow2Pad v = Some (2 ^ k) \<and> unat v \<le> 2 ^ k \<and>
                              (\<forall>j. unat v \<le> 2 ^ j \<longrightarrow> k \<le> j)))"
proof (intro conjI impI)
  have "Pow2Pad_loop (0 :: 'a word) 1 = Some 1"
    by (subst Pow2Pad_loop.simps) simp
  then show "Pow2Pad (0 :: 'a word) = Some 1"
    by (simp add: Pow2Pad_def IsPowerOfTwo_def)
next
  assume a: "1 \<le> v \<and> unat v \<le> 2 ^ (LENGTH('a) - 1)"
  show "\<exists>k<LENGTH('a). Pow2Pad v = Some (2 ^ k) \<and> unat v \<le> 2 ^ k \<and>
                          (\<forall>j. unat v \<le> 2 ^ j \<longrightarrow> k \<le> j)"
  proof (cases "IsPowerOfTwo (ucast v)")
    case True
    then obtain k where "k < 64" "(ucast v :: 64 word) = 2 ^ k"
      using IsPowerOfTwo_iff by blast
    with assms have k: "k < LENGTH('a)" "v = 2 ^ k"
      using ucast_64_pow2 by blast+
    then have u: "unat v = 2 ^ k"
      by (simp add: unat_pow2)
    have "Pow2Pad v = Some (2 ^ k)"
      using True k(2) by (simp add: Pow2Pad_def)
    moreover have "k \<le> j" if "unat v \<le> 2 ^ j" for j
      using that unfolding u by (rule power_le_imp_le_exp [rotated]) simp
    ultimately show ?thesis
      using k(1) u by auto
  next
    case False
    have "\<exists>k<LENGTH('a). Pow2Pad_loop v (2 ^ 0) = Some (2 ^ k) \<and> unat v \<le> 2 ^ k \<and>
                          (\<forall>i<k. 2 ^ i < unat v)"
      using a by (intro Pow2Pad_loop_pow2) simp_all
    then obtain k where k: "k < LENGTH('a)" "Pow2Pad_loop v 1 = Some (2 ^ k)"
        "unat v \<le> 2 ^ k" "\<forall>i<k. 2 ^ i < unat v"
      by auto
    have "k \<le> j" if "unat v \<le> 2 ^ j" for j
    proof (rule ccontr)
      assume "\<not> k \<le> j"
      then have "2 ^ j < unat v"
        using k(4) by simp
      with that show False
        by simp
    qed
    moreover have "Pow2Pad v = Some (2 ^ k)"
      using False k(2) by (simp add: Pow2Pad_def)
    ultimately show ?thesis
      using k(1,3) by auto
  qed
qed

theorem Pow2Pad_smallest_power_of_two_witness:
  "LENGTH(32) \<le> 64 \<and> Pow2Pad (0 :: 32 word) = Some 1 \<and>
   (1 :: 32 word) \<le> 5 \<and> unat (5 :: 32 word) \<le> 2 ^ (LENGTH(32) - 1) \<and>
   Pow2Pad (1 :: 32 word) = Some 1 \<and> Pow2Pad (5 :: 32 word) = Some 8 \<and>
   Pow2Pad (8 :: 32 word) = Some 8"
proof -
  have e: "Pow2Pad (1 :: 32 word) = Some 1" "Pow2Pad (5 :: 32 word) = Some 8"
    "Pow2Pad (8 :: 32 word) = Some 8"
    by (simp_all add: Pow2Pad_def IsPowerOfTwo_def Pow2Pad_loop.simps)
  show ?thesis
    using Pow2Pad_smallest_power_of_two [of "5 :: 32 word"] e by simp
qed

section \<open>Population count\<close>

text \<open>
  Numbers are written by their digits in base 2, 4, 16 and 256: each step of
  \<open>CountSetBits\<close> adds neighbouring digits and doubles the digit width.
\<close>

lemma and_digits:
  fixes a m t M :: nat
  assumes "a < 2 ^ k" "m < 2 ^ k"
  shows "(a + 2 ^ k * t) AND (m + 2 ^ k * M) = (a AND m) + 2 ^ k * (t AND M)"
proof -
  let ?x = "(a + 2 ^ k * t) AND (m + 2 ^ k * M)"
  have "take_bit k (a + 2 ^ k * t) = a" "take_bit k (m + 2 ^ k * M) = m"
    using assms by (simp_all add: take_bit_eq_mod)
  then have low: "take_bit k ?x = a AND m"
    by (simp only: take_bit_and)
  have "drop_bit k (a + 2 ^ k * t) = t" "drop_bit k (m + 2 ^ k * M) = M"
    using assms by (simp_all add: drop_bit_eq_div)
  then have high: "drop_bit k ?x = t AND M"
    by (simp only: drop_bit_and)
  have "?x = take_bit k ?x + 2 ^ k * drop_bit k ?x"
    by (simp add: take_bit_eq_mod drop_bit_eq_div)
  then show ?thesis
    unfolding low high .
qed

lemma and_digits_2: "a < 2 \<Longrightarrow> m < 2 \<Longrightarrow> (a + 2 * t) AND (m + 2
    * M) = (a AND m) + 2 * (t AND M)"
  for a m t M :: nat
  using and_digits [of a 1 m t M] by simp

lemma and_digits_4: "a < 4 \<Longrightarrow> m < 4 \<Longrightarrow> (a + 4 * t) AND (m + 4
    * M) = (a AND m) + 4 * (t AND M)"
  for a m t M :: nat
  using and_digits [of a 2 m t M] by simp

lemma and_digits_16: "a < 16 \<Longrightarrow> m < 16 \<Longrightarrow> (a + 16 * t) AND (m
    + 16 * M) = (a AND m) + 16 * (t AND M)"
  for a m t M :: nat
  using and_digits [of a 4 m t M] by simp

lemma and_low_digit:
  "a < 2 \<Longrightarrow> a AND 1 = a" "a < 4 \<Longrightarrow> a AND 3 = a" "a < 16
      \<Longrightarrow> a AND 15 = a" "a AND 0 = 0"
  for a :: nat
proof -
  have "a AND mask k = a" if "a < 2 ^ k" for k
    using that by (simp add: take_bit_eq_mask [symmetric] take_bit_eq_mod)
  from this [of 1] this [of 2] this [of 4]
  show "a < 2 \<Longrightarrow> a AND 1 = a" "a < 4 \<Longrightarrow> a AND 3 = a" "a < 16
      \<Longrightarrow> a AND 15 = a"
    by (simp_all add: mask_eq_exp_minus_1)
  show "a AND 0 = 0"
    by simp
qed

lemma digit_bounds: "(0::nat) < 2" "(1::nat) < 2" "(0::nat) < 4" "(3::nat) < 4" "(0::nat) <
    16" "(15::nat) < 16"
  by simp_all

lemma count_stage_1:
  fixes b0 b1 b2 b3 b4 b5 b6 b7 b8 b9 b10 b11 b12 b13 b14 b15 b16 b17 b18 b19 b20 b21 b22
      b23 b24 b25 b26 b27 b28 b29 b30 b31 :: nat
  assumes "b0 < 2" "b1 < 2" "b2 < 2" "b3 < 2" "b4 < 2" "b5 < 2" "b6 < 2" "b7 < 2" "b8 < 2"
      "b9 < 2" "b10 < 2" "b11 < 2" "b12 < 2" "b13 < 2" "b14 < 2" "b15 < 2" "b16 < 2" "b17 < 2"
      "b18 < 2" "b19 < 2" "b20 < 2" "b21 < 2" "b22 < 2" "b23 < 2" "b24 < 2" "b25 < 2" "b26 < 2"
      "b27 < 2" "b28 < 2" "b29 < 2" "b30 < 2" "b31 < 2"
  shows "(b0 + 2 * (b1 + 2 * (b2 + 2 * (b3 + 2 * (b4 + 2 * (b5 + 2 * (b6 + 2 * (b7 + 2 * (b8
      + 2 * (b9 + 2 * (b10 + 2 * (b11 + 2 * (b12 + 2 * (b13 + 2 * (b14 + 2 * (b15 + 2 * (b16 + 2
      * (b17 + 2 * (b18 + 2 * (b19 + 2 * (b20 + 2 * (b21 + 2 * (b22 + 2 * (b23 + 2 * (b24 + 2 *
      (b25 + 2 * (b26 + 2 * (b27 + 2 * (b28 + 2 * (b29 + 2 * (b30 + 2 *
      (b31)))))))))))))))))))))))))))))))) - (((b0 + 2 * (b1 + 2 * (b2 + 2 * (b3 + 2 * (b4 + 2 *
      (b5 + 2 * (b6 + 2 * (b7 + 2 * (b8 + 2 * (b9 + 2 * (b10 + 2 * (b11 + 2 * (b12 + 2 * (b13 +
      2 * (b14 + 2 * (b15 + 2 * (b16 + 2 * (b17 + 2 * (b18 + 2 * (b19 + 2 * (b20 + 2 * (b21 + 2
      * (b22 + 2 * (b23 + 2 * (b24 + 2 * (b25 + 2 * (b26 + 2 * (b27 + 2 * (b28 + 2 * (b29 + 2 *
      (b30 + 2 * (b31)))))))))))))))))))))))))))))))) div 2) AND 0x55555555) = (b0 + b1) + 4 *
      ((b2 + b3) + 4 * ((b4 + b5) + 4 * ((b6 + b7) + 4 * ((b8 + b9) + 4 * ((b10 + b11) + 4 *
      ((b12 + b13) + 4 * ((b14 + b15) + 4 * ((b16 + b17) + 4 * ((b18 + b19) + 4 * ((b20 + b21) +
      4 * ((b22 + b23) + 4 * ((b24 + b25) + 4 * ((b26 + b27) + 4 * ((b28 + b29) + 4 * ((b30 +
      b31))))))))))))))))"
proof -
  have d: "(b0 + 2 * (b1 + 2 * (b2 + 2 * (b3 + 2 * (b4 + 2 * (b5 + 2 * (b6 + 2 * (b7 + 2 *
      (b8 + 2 * (b9 + 2 * (b10 + 2 * (b11 + 2 * (b12 + 2 * (b13 + 2 * (b14 + 2 * (b15 + 2 * (b16
      + 2 * (b17 + 2 * (b18 + 2 * (b19 + 2 * (b20 + 2 * (b21 + 2 * (b22 + 2 * (b23 + 2 * (b24 +
      2 * (b25 + 2 * (b26 + 2 * (b27 + 2 * (b28 + 2 * (b29 + 2 * (b30 + 2 *
      (b31)))))))))))))))))))))))))))))))) div 2 = b1 + 2 * (b2 + 2 * (b3 + 2 * (b4 + 2 * (b5 +
      2 * (b6 + 2 * (b7 + 2 * (b8 + 2 * (b9 + 2 * (b10 + 2 * (b11 + 2 * (b12 + 2 * (b13 + 2 *
      (b14 + 2 * (b15 + 2 * (b16 + 2 * (b17 + 2 * (b18 + 2 * (b19 + 2 * (b20 + 2 * (b21 + 2 *
      (b22 + 2 * (b23 + 2 * (b24 + 2 * (b25 + 2 * (b26 + 2 * (b27 + 2 * (b28 + 2 * (b29 + 2 *
      (b30 + 2 * (b31))))))))))))))))))))))))))))))"
    using assms(1) by simp
  have m: "(0x55555555 :: nat) = 1 + 2 * (0 + 2 * (1 + 2 * (0 + 2 * (1 + 2 * (0 + 2 * (1 + 2
      * (0 + 2 * (1 + 2 * (0 + 2 * (1 + 2 * (0 + 2 * (1 + 2 * (0 + 2 * (1 + 2 * (0 + 2 * (1 + 2
      * (0 + 2 * (1 + 2 * (0 + 2 * (1 + 2 * (0 + 2 * (1 + 2 * (0 + 2 * (1 + 2 * (0 + 2 * (1 + 2
      * (0 + 2 * (1 + 2 * (0 + 2 * (1))))))))))))))))))))))))))))))"
    by simp
  have a: "(b1 + 2 * (b2 + 2 * (b3 + 2 * (b4 + 2 * (b5 + 2 * (b6 + 2 * (b7 + 2 * (b8 + 2 *
      (b9 + 2 * (b10 + 2 * (b11 + 2 * (b12 + 2 * (b13 + 2 * (b14 + 2 * (b15 + 2 * (b16 + 2 *
      (b17 + 2 * (b18 + 2 * (b19 + 2 * (b20 + 2 * (b21 + 2 * (b22 + 2 * (b23 + 2 * (b24 + 2 *
      (b25 + 2 * (b26 + 2 * (b27 + 2 * (b28 + 2 * (b29 + 2 * (b30 + 2 *
      (b31))))))))))))))))))))))))))))))) AND (1 + 2 * (0 + 2 * (1 + 2 * (0 + 2 * (1 + 2 * (0 +
      2 * (1 + 2 * (0 + 2 * (1 + 2 * (0 + 2 * (1 + 2 * (0 + 2 * (1 + 2 * (0 + 2 * (1 + 2 * (0 +
      2 * (1 + 2 * (0 + 2 * (1 + 2 * (0 + 2 * (1 + 2 * (0 + 2 * (1 + 2 * (0 + 2 * (1 + 2 * (0 +
      2 * (1 + 2 * (0 + 2 * (1 + 2 * (0 + 2 * (1))))))))))))))))))))))))))))))) = b1 + 2 * (0 +
      2 * (b3 + 2 * (0 + 2 * (b5 + 2 * (0 + 2 * (b7 + 2 * (0 + 2 * (b9 + 2 * (0 + 2 * (b11 + 2 *
      (0 + 2 * (b13 + 2 * (0 + 2 * (b15 + 2 * (0 + 2 * (b17 + 2 * (0 + 2 * (b19 + 2 * (0 + 2 *
      (b21 + 2 * (0 + 2 * (b23 + 2 * (0 + 2 * (b25 + 2 * (0 + 2 * (b27 + 2 * (0 + 2 * (b29 + 2 *
      (0 + 2 * (b31))))))))))))))))))))))))))))))"
    using assms by (simp only: and_digits_2 and_low_digit digit_bounds)
  show ?thesis
    unfolding d m a by (simp add: algebra_simps)
qed

lemma count_stage_2:
  fixes c0 c1 c2 c3 c4 c5 c6 c7 c8 c9 c10 c11 c12 c13 c14 c15 :: nat
  assumes "c0 < 3" "c1 < 3" "c2 < 3" "c3 < 3" "c4 < 3" "c5 < 3" "c6 < 3" "c7 < 3" "c8 < 3"
      "c9 < 3" "c10 < 3" "c11 < 3" "c12 < 3" "c13 < 3" "c14 < 3" "c15 < 3"
  shows "((c0 + 4 * (c1 + 4 * (c2 + 4 * (c3 + 4 * (c4 + 4 * (c5 + 4 * (c6 + 4 * (c7 + 4 *
      (c8 + 4 * (c9 + 4 * (c10 + 4 * (c11 + 4 * (c12 + 4 * (c13 + 4 * (c14 + 4 *
      (c15)))))))))))))))) AND 0x33333333) + (((c0 + 4 * (c1 + 4 * (c2 + 4 * (c3 + 4 * (c4 + 4 *
      (c5 + 4 * (c6 + 4 * (c7 + 4 * (c8 + 4 * (c9 + 4 * (c10 + 4 * (c11 + 4 * (c12 + 4 * (c13 +
      4 * (c14 + 4 * (c15)))))))))))))))) div 4) AND 0x33333333) = (c0 + c1) + 16 * ((c2 + c3) +
      16 * ((c4 + c5) + 16 * ((c6 + c7) + 16 * ((c8 + c9) + 16 * ((c10 + c11) + 16 * ((c12 +
      c13) + 16 * ((c14 + c15))))))))"
proof -
  from assms have lt: "c0 < 4" "c1 < 4" "c2 < 4" "c3 < 4" "c4 < 4" "c5 < 4" "c6 < 4" "c7 <
      4" "c8 < 4" "c9 < 4" "c10 < 4" "c11 < 4" "c12 < 4" "c13 < 4" "c14 < 4" "c15 < 4"
    by simp_all
  have d: "(c0 + 4 * (c1 + 4 * (c2 + 4 * (c3 + 4 * (c4 + 4 * (c5 + 4 * (c6 + 4 * (c7 + 4 *
      (c8 + 4 * (c9 + 4 * (c10 + 4 * (c11 + 4 * (c12 + 4 * (c13 + 4 * (c14 + 4 *
      (c15)))))))))))))))) div 4 = c1 + 4 * (c2 + 4 * (c3 + 4 * (c4 + 4 * (c5 + 4 * (c6 + 4 *
      (c7 + 4 * (c8 + 4 * (c9 + 4 * (c10 + 4 * (c11 + 4 * (c12 + 4 * (c13 + 4 * (c14 + 4 *
      (c15))))))))))))))"
    using lt(1) by simp
  have m: "(0x33333333 :: nat) = 3 + 4 * (0 + 4 * (3 + 4 * (0 + 4 * (3 + 4 * (0 + 4 * (3 + 4
      * (0 + 4 * (3 + 4 * (0 + 4 * (3 + 4 * (0 + 4 * (3 + 4 * (0 + 4 * (3 + 4 *
      (0)))))))))))))))"
    by simp
  have m': "(0x33333333 :: nat) = 3 + 4 * (0 + 4 * (3 + 4 * (0 + 4 * (3 + 4 * (0 + 4 * (3 +
      4 * (0 + 4 * (3 + 4 * (0 + 4 * (3 + 4 * (0 + 4 * (3 + 4 * (0 + 4 * (3))))))))))))))"
    by simp
  have a: "(c0 + 4 * (c1 + 4 * (c2 + 4 * (c3 + 4 * (c4 + 4 * (c5 + 4 * (c6 + 4 * (c7 + 4 *
      (c8 + 4 * (c9 + 4 * (c10 + 4 * (c11 + 4 * (c12 + 4 * (c13 + 4 * (c14 + 4 *
      (c15)))))))))))))))) AND (3 + 4 * (0 + 4 * (3 + 4 * (0 + 4 * (3 + 4 * (0 + 4 * (3 + 4 * (0
      + 4 * (3 + 4 * (0 + 4 * (3 + 4 * (0 + 4 * (3 + 4 * (0 + 4 * (3 + 4 * (0)))))))))))))))) =
      c0 + 4 * (0 + 4 * (c2 + 4 * (0 + 4 * (c4 + 4 * (0 + 4 * (c6 + 4 * (0 + 4 * (c8 + 4 * (0 +
      4 * (c10 + 4 * (0 + 4 * (c12 + 4 * (0 + 4 * (c14 + 4 * (0)))))))))))))))"
    using lt by (simp only: and_digits_4 and_low_digit digit_bounds)
  have a': "(c1 + 4 * (c2 + 4 * (c3 + 4 * (c4 + 4 * (c5 + 4 * (c6 + 4 * (c7 + 4 * (c8 + 4 *
      (c9 + 4 * (c10 + 4 * (c11 + 4 * (c12 + 4 * (c13 + 4 * (c14 + 4 * (c15))))))))))))))) AND
      (3 + 4 * (0 + 4 * (3 + 4 * (0 + 4 * (3 + 4 * (0 + 4 * (3 + 4 * (0 + 4 * (3 + 4 * (0 + 4 *
      (3 + 4 * (0 + 4 * (3 + 4 * (0 + 4 * (3))))))))))))))) = c1 + 4 * (0 + 4 * (c3 + 4 * (0 + 4
      * (c5 + 4 * (0 + 4 * (c7 + 4 * (0 + 4 * (c9 + 4 * (0 + 4 * (c11 + 4 * (0 + 4 * (c13 + 4 *
      (0 + 4 * (c15))))))))))))))"
    using lt by (simp only: and_digits_4 and_low_digit digit_bounds)
  have "((c0 + 4 * (c1 + 4 * (c2 + 4 * (c3 + 4 * (c4 + 4 * (c5 + 4 * (c6 + 4 * (c7 + 4 * (c8
      + 4 * (c9 + 4 * (c10 + 4 * (c11 + 4 * (c12 + 4 * (c13 + 4 * (c14 + 4 *
      (c15)))))))))))))))) AND 0x33333333) = c0 + 4 * (0 + 4 * (c2 + 4 * (0 + 4 * (c4 + 4 * (0 +
      4 * (c6 + 4 * (0 + 4 * (c8 + 4 * (0 + 4 * (c10 + 4 * (0 + 4 * (c12 + 4 * (0 + 4 * (c14 + 4
      * (0)))))))))))))))"
    unfolding m by (rule a)
  moreover have "(((c0 + 4 * (c1 + 4 * (c2 + 4 * (c3 + 4 * (c4 + 4 * (c5 + 4 * (c6 + 4 * (c7
      + 4 * (c8 + 4 * (c9 + 4 * (c10 + 4 * (c11 + 4 * (c12 + 4 * (c13 + 4 * (c14 + 4 *
      (c15)))))))))))))))) div 4) AND 0x33333333) = c1 + 4 * (0 + 4 * (c3 + 4 * (0 + 4 * (c5 + 4
      * (0 + 4 * (c7 + 4 * (0 + 4 * (c9 + 4 * (0 + 4 * (c11 + 4 * (0 + 4 * (c13 + 4 * (0 + 4 *
      (c15))))))))))))))"
    unfolding d m' by (rule a')
  ultimately show ?thesis
    by (simp add: algebra_simps)
qed

lemma count_stage_3:
  fixes d0 d1 d2 d3 d4 d5 d6 d7 :: nat
  assumes "d0 < 5" "d1 < 5" "d2 < 5" "d3 < 5" "d4 < 5" "d5 < 5" "d6 < 5" "d7 < 5"
  shows "((d0 + 16 * (d1 + 16 * (d2 + 16 * (d3 + 16 * (d4 + 16 * (d5 + 16 * (d6 + 16 *
      (d7)))))))) + (d0 + 16 * (d1 + 16 * (d2 + 16 * (d3 + 16 * (d4 + 16 * (d5 + 16 * (d6 + 16 *
      (d7)))))))) div 16) AND 0x0F0F0F0F = (d0 + d1) + 256 * ((d2 + d3) + 256 * ((d4 + d5) + 256
      * ((d6 + d7))))"
proof -
  from assms have lt: "d0 + d1 < 16" "d1 + d2 < 16" "d2 + d3 < 16" "d3 + d4 < 16" "d4 + d5 <
      16" "d5 + d6 < 16" "d6 + d7 < 16" "d0 < 16"
    by simp_all
  have d: "(d0 + 16 * (d1 + 16 * (d2 + 16 * (d3 + 16 * (d4 + 16 * (d5 + 16 * (d6 + 16 *
      (d7)))))))) div 16 = d1 + 16 * (d2 + 16 * (d3 + 16 * (d4 + 16 * (d5 + 16 * (d6 + 16 *
      (d7))))))"
    using lt(8) by simp
  have s: "(d0 + 16 * (d1 + 16 * (d2 + 16 * (d3 + 16 * (d4 + 16 * (d5 + 16 * (d6 + 16 *
      (d7)))))))) + (d1 + 16 * (d2 + 16 * (d3 + 16 * (d4 + 16 * (d5 + 16 * (d6 + 16 * (d7)))))))
      = (d0 + d1) + 16 * ((d1 + d2) + 16 * ((d2 + d3) + 16 * ((d3 + d4) + 16 * ((d4 + d5) + 16 *
      ((d5 + d6) + 16 * ((d6 + d7) + 16 * (d7)))))))"
    by (simp add: algebra_simps)
  have m: "(0x0F0F0F0F :: nat) = 15 + 16 * (0 + 16 * (15 + 16 * (0 + 16 * (15 + 16 * (0 + 16
      * (15 + 16 * (0)))))))"
    by simp
  have a: "((d0 + d1) + 16 * ((d1 + d2) + 16 * ((d2 + d3) + 16 * ((d3 + d4) + 16 * ((d4 +
      d5) + 16 * ((d5 + d6) + 16 * ((d6 + d7) + 16 * (d7)))))))) AND (15 + 16 * (0 + 16 * (15 +
      16 * (0 + 16 * (15 + 16 * (0 + 16 * (15 + 16 * (0)))))))) = (d0 + d1) + 16 * (0 + 16 *
      ((d2 + d3) + 16 * (0 + 16 * ((d4 + d5) + 16 * (0 + 16 * ((d6 + d7) + 16 * (0)))))))"
    using lt by (simp only: and_digits_16 and_low_digit digit_bounds)
  have "((d0 + 16 * (d1 + 16 * (d2 + 16 * (d3 + 16 * (d4 + 16 * (d5 + 16 * (d6 + 16 *
      (d7)))))))) + (d0 + 16 * (d1 + 16 * (d2 + 16 * (d3 + 16 * (d4 + 16 * (d5 + 16 * (d6 + 16 *
      (d7)))))))) div 16) AND 0x0F0F0F0F = (d0 + d1) + 16 * (0 + 16 * ((d2 + d3) + 16 * (0 + 16
      * ((d4 + d5) + 16 * (0 + 16 * ((d6 + d7) + 16 * (0)))))))"
    unfolding d s m by (rule a)
  then show ?thesis
    by (simp add: algebra_simps)
qed

lemma count_stage_4:
  fixes e0 e1 e2 e3 :: nat
  assumes "e0 < 9" "e1 < 9" "e2 < 9" "e3 < 9"
  shows "((e0 + 256 * (e1 + 256 * (e2 + 256 * (e3)))) * 0x01010101) mod 2 ^ 32 div 2 ^ 24 =
      e0 + e1 + e2 + e3"
proof -
  define low where "low = e0 + 256 * (e0 + e1) + 65536 * (e0 + e1 + e2)"
  define high where "high = e1 + e2 + e3 + 256 * (e2 + e3) + 65536 * e3"
  define total where "total = e0 + e1 + e2 + e3"
  have split_mod: "(l + q * h) mod q = l" if "l < q" for l q h :: nat
    using that by simp
  have split_div: "(l + p * t) div p = t" if "l < p" for l p t :: nat
    using that by simp
  have "(e0 + 256 * (e1 + 256 * (e2 + 256 * (e3)))) * 0x01010101 = (low + 2 ^ 24 * total) +
      2 ^ 32 * high"
    by (simp add: low_def high_def total_def algebra_simps)
  moreover have low: "low < 2 ^ 24"
    using assms by (simp add: low_def)
  moreover have "low + 2 ^ 24 * total < 2 ^ 32"
    using assms by (simp add: low_def total_def)
  ultimately have "((e0 + 256 * (e1 + 256 * (e2 + 256 * (e3)))) * 0x01010101) mod 2 ^ 32 =
      low + 2 ^ 24 * total"
    by (simp only: split_mod)
  then show ?thesis
    unfolding total_def [symmetric] by (simp only: split_div [OF low])
qed

lemma upt_32:
  "[0..<32] = [0, 1, 2, 3, 4, 5, 6, 7, 8, 9, 10, 11, 12, 13, 14, 15, 16, 17, 18, 19, 20, 21, 22,
     23, 24, 25, 26, 27, 28, 29, 30, 31]"
  by code_simp

lemma length_filter_of_bool:
  "length (filter P xs) = sum_list (map (\<lambda>i. of_bool (P i)) xs)"
  by (induction xs) simp_all

lemma unat_bits:
  fixes x :: "32 word"
  shows "unat x = horner_sum of_bool 2 (map (bit x) [0..<32])"
proof -
  have "horner_sum of_bool 2 (map (bit (unat x)) [0..<32]) = take_bit 32 (unat x)"
    by (rule horner_sum_bit_eq_take_bit)
  moreover have "take_bit 32 (unat x) = unat x"
    using unsigned_less [of x, where 'a = nat] by (simp add: take_bit_nat_eq_self)
  moreover have "map (bit (unat x)) [0..<32] = map (bit x) [0..<32]"
    by (simp add: bit_unsigned_iff)
  ultimately show ?thesis
    by simp
qed

lemma CountSetBits_popcount: "unat (CountSetBits x) = naive_popcount x"
proof -
  define b :: "nat \<Rightarrow> nat" where "b i = of_bool (bit x i)" for i
  have bl: "b 0 < 2" "b 1 < 2" "b 2 < 2" "b 3 < 2" "b 4 < 2" "b 5 < 2" "b 6 < 2" "b 7 < 2"
      "b 8 < 2" "b 9 < 2" "b 10 < 2" "b 11 < 2" "b 12 < 2" "b 13 < 2" "b 14 < 2" "b 15 < 2" "b
      16 < 2" "b 17 < 2" "b 18 < 2" "b 19 < 2" "b 20 < 2" "b 21 < 2" "b 22 < 2" "b 23 < 2" "b 24
      < 2" "b 25 < 2" "b 26 < 2" "b 27 < 2" "b 28 < 2" "b 29 < 2" "b 30 < 2" "b 31 < 2"
    by (simp_all add: b_def)
  have cl: "b 0 + b 1 < 3" "b 2 + b 3 < 3" "b 4 + b 5 < 3" "b 6 + b 7 < 3" "b 8 + b 9 < 3"
      "b 10 + b 11 < 3" "b 12 + b 13 < 3" "b 14 + b 15 < 3" "b 16 + b 17 < 3" "b 18 + b 19 < 3"
      "b 20 + b 21 < 3" "b 22 + b 23 < 3" "b 24 + b 25 < 3" "b 26 + b 27 < 3" "b 28 + b 29 < 3"
      "b 30 + b 31 < 3"
    using bl by simp_all
  have dl: "(b 0 + b 1) + (b 2 + b 3) < 5" "(b 4 + b 5) + (b 6 + b 7) < 5" "(b 8 + b 9) + (b
      10 + b 11) < 5" "(b 12 + b 13) + (b 14 + b 15) < 5" "(b 16 + b 17) + (b 18 + b 19) < 5"
      "(b 20 + b 21) + (b 22 + b 23) < 5" "(b 24 + b 25) + (b 26 + b 27) < 5" "(b 28 + b 29) +
      (b 30 + b 31) < 5"
    using bl by simp_all
  have el: "((b 0 + b 1) + (b 2 + b 3)) + ((b 4 + b 5) + (b 6 + b 7)) < 9" "((b 8 + b 9) +
      (b 10 + b 11)) + ((b 12 + b 13) + (b 14 + b 15)) < 9" "((b 16 + b 17) + (b 18 + b 19)) +
      ((b 20 + b 21) + (b 22 + b 23)) < 9" "((b 24 + b 25) + (b 26 + b 27)) + ((b 28 + b 29) +
      (b 30 + b 31)) < 9"
    using bl by simp_all
  have u: "unat x = b 0 + 2 * (b 1 + 2 * (b 2 + 2 * (b 3 + 2 * (b 4 + 2 * (b 5 + 2 * (b 6 +
      2 * (b 7 + 2 * (b 8 + 2 * (b 9 + 2 * (b 10 + 2 * (b 11 + 2 * (b 12 + 2 * (b 13 + 2 * (b 14
      + 2 * (b 15 + 2 * (b 16 + 2 * (b 17 + 2 * (b 18 + 2 * (b 19 + 2 * (b 20 + 2 * (b 21 + 2 *
      (b 22 + 2 * (b 23 + 2 * (b 24 + 2 * (b 25 + 2 * (b 26 + 2 * (b 27 + 2 * (b 28 + 2 * (b 29
      + 2 * (b 30 + 2 * (b 31)))))))))))))))))))))))))))))))"
    by (simp add: unat_bits upt_32 b_def)
  have pc: "naive_popcount x = b 0 + b 1 + b 2 + b 3 + b 4 + b 5 + b 6 + b 7 + b 8 + b 9 + b
      10 + b 11 + b 12 + b 13 + b 14 + b 15 + b 16 + b 17 + b 18 + b 19 + b 20 + b 21 + b 22 + b
      23 + b 24 + b 25 + b 26 + b 27 + b 28 + b 29 + b 30 + b 31"
    by (simp add: naive_popcount_def length_filter_of_bool upt_32 b_def)

  define x1 where "x1 = x - (drop_bit 1 x AND 0x55555555)"
  define x2 where "x2 = (x1 AND 0x33333333) + (drop_bit 2 x1 AND 0x33333333)"
  define x3 where "x3 = (x2 + drop_bit 4 x2) AND 0x0F0F0F0F"
  have result: "CountSetBits x = drop_bit 24 (x3 * 0x01010101)"
    by (simp add: CountSetBits_def Let_def x1_def x2_def x3_def)

  have "drop_bit 1 x AND 0x55555555 \<le> drop_bit 1 x"
    by (rule word_and_le2)
  also have "drop_bit 1 x \<le> x"
    by (simp add: word_le_nat_alt unat_drop_bit_div)
  finally have "unat x1 = unat x - unat (drop_bit 1 x AND 0x55555555)"
    unfolding x1_def by (rule unat_sub)
  also have "unat (drop_bit 1 x AND 0x55555555) = (unat x div 2) AND 0x55555555"
    by (simp add: unsigned_and_eq unat_drop_bit_div)
  finally have "unat x1 = (b 0 + 2 * (b 1 + 2 * (b 2 + 2 * (b 3 + 2 * (b 4 + 2 * (b 5 + 2 *
      (b 6 + 2 * (b 7 + 2 * (b 8 + 2 * (b 9 + 2 * (b 10 + 2 * (b 11 + 2 * (b 12 + 2 * (b 13 + 2
      * (b 14 + 2 * (b 15 + 2 * (b 16 + 2 * (b 17 + 2 * (b 18 + 2 * (b 19 + 2 * (b 20 + 2 * (b
      21 + 2 * (b 22 + 2 * (b 23 + 2 * (b 24 + 2 * (b 25 + 2 * (b 26 + 2 * (b 27 + 2 * (b 28 + 2
      * (b 29 + 2 * (b 30 + 2 * (b 31)))))))))))))))))))))))))))))))) - (((b 0 + 2 * (b 1 + 2 *
      (b 2 + 2 * (b 3 + 2 * (b 4 + 2 * (b 5 + 2 * (b 6 + 2 * (b 7 + 2 * (b 8 + 2 * (b 9 + 2 * (b
      10 + 2 * (b 11 + 2 * (b 12 + 2 * (b 13 + 2 * (b 14 + 2 * (b 15 + 2 * (b 16 + 2 * (b 17 + 2
      * (b 18 + 2 * (b 19 + 2 * (b 20 + 2 * (b 21 + 2 * (b 22 + 2 * (b 23 + 2 * (b 24 + 2 * (b
      25 + 2 * (b 26 + 2 * (b 27 + 2 * (b 28 + 2 * (b 29 + 2 * (b 30 + 2 * (b
      31)))))))))))))))))))))))))))))))) div 2) AND 0x55555555)"
    unfolding u .
  then have u1: "unat x1 = (b 0 + b 1) + 4 * ((b 2 + b 3) + 4 * ((b 4 + b 5) + 4 * ((b 6 + b
      7) + 4 * ((b 8 + b 9) + 4 * ((b 10 + b 11) + 4 * ((b 12 + b 13) + 4 * ((b 14 + b 15) + 4 *
      ((b 16 + b 17) + 4 * ((b 18 + b 19) + 4 * ((b 20 + b 21) + 4 * ((b 22 + b 23) + 4 * ((b 24
      + b 25) + 4 * ((b 26 + b 27) + 4 * ((b 28 + b 29) + 4 * ((b 30 + b 31))))))))))))))))"
    unfolding count_stage_1 [OF bl] .

  have "unat (x1 AND 0x33333333) + unat (drop_bit 2 x1 AND 0x33333333)
          = (unat x1 AND 0x33333333) + ((unat x1 div 4) AND 0x33333333)"
    by (simp add: unsigned_and_eq unat_drop_bit_div)
  also have "\<dots> = ((b 0 + b 1) + (b 2 + b 3)) + 16 * (((b 4 + b 5) + (b 6 + b 7)) + 16
      * (((b 8 + b 9) + (b 10 + b 11)) + 16 * (((b 12 + b 13) + (b 14 + b 15)) + 16 * (((b 16 +
      b 17) + (b 18 + b 19)) + 16 * (((b 20 + b 21) + (b 22 + b 23)) + 16 * (((b 24 + b 25) + (b
      26 + b 27)) + 16 * (((b 28 + b 29) + (b 30 + b 31)))))))))"
    unfolding u1 by (rule count_stage_2 [OF cl])
  finally have s2: "unat (x1 AND 0x33333333) + unat (drop_bit 2 x1 AND 0x33333333) = ((b 0 +
      b 1) + (b 2 + b 3)) + 16 * (((b 4 + b 5) + (b 6 + b 7)) + 16 * (((b 8 + b 9) + (b 10 + b
      11)) + 16 * (((b 12 + b 13) + (b 14 + b 15)) + 16 * (((b 16 + b 17) + (b 18 + b 19)) + 16
      * (((b 20 + b 21) + (b 22 + b 23)) + 16 * (((b 24 + b 25) + (b 26 + b 27)) + 16 * (((b 28
      + b 29) + (b 30 + b 31)))))))))" .
  have "((b 0 + b 1) + (b 2 + b 3)) + 16 * (((b 4 + b 5) + (b 6 + b 7)) + 16 * (((b 8 + b 9)
      + (b 10 + b 11)) + 16 * (((b 12 + b 13) + (b 14 + b 15)) + 16 * (((b 16 + b 17) + (b 18 +
      b 19)) + 16 * (((b 20 + b 21) + (b 22 + b 23)) + 16 * (((b 24 + b 25) + (b 26 + b 27)) +
      16 * (((b 28 + b 29) + (b 30 + b 31))))))))) < 2 ^ 32"
    using dl by simp
  then have "unat (x1 AND 0x33333333) + unat (drop_bit 2 x1 AND 0x33333333) < 2 ^ LENGTH(32)"
    unfolding s2 by simp
  then have "unat x2 = unat (x1 AND 0x33333333) + unat (drop_bit 2 x1 AND 0x33333333)"
    unfolding x2_def by (rule unat_add_lem [THEN iffD1])
  then have u2: "unat x2 = ((b 0 + b 1) + (b 2 + b 3)) + 16 * (((b 4 + b 5) + (b 6 + b 7)) +
      16 * (((b 8 + b 9) + (b 10 + b 11)) + 16 * (((b 12 + b 13) + (b 14 + b 15)) + 16 * (((b 16
      + b 17) + (b 18 + b 19)) + 16 * (((b 20 + b 21) + (b 22 + b 23)) + 16 * (((b 24 + b 25) +
      (b 26 + b 27)) + 16 * (((b 28 + b 29) + (b 30 + b 31)))))))))"
    unfolding s2 .

  have "unat x2 + unat x2 div 16 < 2 ^ 32"
    unfolding u2 using dl by simp
  then have "unat x2 + unat (drop_bit 4 x2) < 2 ^ LENGTH(32)"
    by (simp add: unat_drop_bit_div)
  then have "unat (x2 + drop_bit 4 x2) = unat x2 + unat (drop_bit 4 x2)"
    by (rule unat_add_lem [THEN iffD1])
  then have "unat x3 = (unat x2 + unat x2 div 16) AND 0x0F0F0F0F"
    by (simp add: x3_def unsigned_and_eq unat_drop_bit_div)
  then have u3: "unat x3 = (((b 0 + b 1) + (b 2 + b 3)) + ((b 4 + b 5) + (b 6 + b 7))) + 256
      * ((((b 8 + b 9) + (b 10 + b 11)) + ((b 12 + b 13) + (b 14 + b 15))) + 256 * ((((b 16 + b
      17) + (b 18 + b 19)) + ((b 20 + b 21) + (b 22 + b 23))) + 256 * ((((b 24 + b 25) + (b 26 +
      b 27)) + ((b 28 + b 29) + (b 30 + b 31))))))"
    unfolding u2 count_stage_3 [OF dl] .

  have "unat (CountSetBits x) = (unat x3 * 0x01010101) mod 2 ^ 32 div 2 ^ 24"
    by (simp add: result unat_drop_bit_div unat_word_ariths)
  also have "\<dots> = (((b 0 + b 1) + (b 2 + b 3)) + ((b 4 + b 5) + (b 6 + b 7))) + (((b 8
      + b 9) + (b 10 + b 11)) + ((b 12 + b 13) + (b 14 + b 15))) + (((b 16 + b 17) + (b 18 + b
      19)) + ((b 20 + b 21) + (b 22 + b 23))) + (((b 24 + b 25) + (b 26 + b 27)) + ((b 28 + b
      29) + (b 30 + b 31)))"
    unfolding u3 by (rule count_stage_4 [OF el])
  also have "\<dots> = naive_popcount x"
    unfolding pc by simp
  finally show ?thesis .
qed

text \<open>
  Claim C4. For every 32-bit unsigned input \<open>x\<close>, \<open>CountSetBits(x)\<close> equals the naive
  popcount of \<open>x\<close> (the number of bit positions \<open>i\<close> in \<open>[0, 32)\<close> with bit \<open>i\<close> of \<open>x\<close>
  set); in particular \<open>CountSetBits(0) = 0\<close> and \<open>CountSetBits(0xFFFFFFFF) = 32\<close>.
\<close>

theorem CountSetBits_naive_popcount:
  "unat (CountSetBits x) = naive_popcount x \<and>
   CountSetBits 0 = 0 \<and> CountSetBits 0xFFFFFFFF = 32"
  by (simp add: CountSetBits_popcount) (simp add: CountSetBits_def)

section \<open>String hashing\<close>

text \<open>
  Claim C5 says that for every non-null byte string \<open>pStr\<close> of length \<open>strSize > 0\<close>,
  \<open>HashString(pStr, strSize)\<close> equals the 32-bit FNV-1a reference hash. Where plain
  \<open>char\<close> is signed, the code sign-extends a byte of \<open>0x80\<close> or more before the XOR:
  for the one-byte string \<open>0x80\<close> it returns \<open>0x04F3B29F\<close>, and the reference hash is
  \<open>0x850B939F\<close>.
\<close>

theorem HashString_signed_char_high_byte:
  "HashString True (Some [0x80]) 1 = Some (Inr 0x04F3B29F) \<and>
   fnv1a_reference [0x80] = 0x850B939F"
  by (simp add: HashString_def HashString_loop.simps char_to_uint32_def fnvPrime_def
      fnvOffset_def fnv1a_reference_def)

text \<open>
  Where the code and the reference agree: for a string shorter than \<open>2 ^ 32\<close> bytes,
  hashed where plain \<open>char\<close> is unsigned or made of bytes below \<open>0x80\<close> only.
\<close>

lemma HashString_loop_foldl:
  assumes "length pStr < 2 ^ 32"
  shows "i \<le> length pStr \<Longrightarrow>
     HashString_loop signed_char pStr (of_nat (length pStr)) (of_nat i) hash =
       Some (Inr (foldl (\<lambda>h c. (h XOR char_to_uint32 signed_char c) * fnvPrime) hash (drop i pStr)))"
proof (induction "length pStr - i" arbitrary: i hash)
  case 0
  then have i: "i = length pStr"
    by simp
  have "\<not> (ucast (of_nat (length pStr) :: 32 word) :: 64 word) < of_nat (length pStr)"
    using assms by (simp add: word_less_nat_alt unsigned_ucast_eq unat_of_nat take_bit_eq_mod)
  then show ?case
    unfolding i by (subst HashString_loop.simps) simp
next
  case (Suc n)
  then have i: "i < length pStr" and n: "n = length pStr - Suc i"
    by simp_all
  with assms have i32: "i < 2 ^ 32" "Suc i < 2 ^ 32" "length pStr < 2 ^ 64"
    by simp_all
  have ui: "unat (of_nat i :: 32 word) = i"
    using i32(1) by (simp add: unat_of_nat)
  have lt: "(ucast (of_nat i :: 32 word) :: 64 word) < of_nat (length pStr)"
    using i i32 assms by (simp add: word_less_nat_alt unsigned_ucast_eq ui unat_of_nat take_bit_eq_mod)
  have "HashString_loop signed_char pStr (of_nat (length pStr)) (of_nat i) hash =
        HashString_loop signed_char pStr (of_nat (length pStr)) (of_nat (Suc i))
          ((hash XOR char_to_uint32 signed_char (pStr ! i)) * fnvPrime)"
    using lt i ui by (subst HashString_loop.simps) (simp add: add.commute)
  also have "\<dots> = Some (Inr (foldl (\<lambda>h c. (h XOR char_to_uint32 signed_char c) * fnvPrime)
                 ((hash XOR char_to_uint32 signed_char (pStr ! i)) * fnvPrime) (drop (Suc i) pStr)))"
    using Suc.hyps(1) [OF n] i by simp
  also have "drop i pStr = pStr ! i # drop (Suc i) pStr"
    using i by (rule Cons_nth_drop_Suc [symmetric])
  then have "foldl (\<lambda>h c. (h XOR char_to_uint32 signed_char c) * fnvPrime)
                 ((hash XOR char_to_uint32 signed_char (pStr ! i)) * fnvPrime) (drop (Suc i) pStr)
             = foldl (\<lambda>h c. (h XOR char_to_uint32 signed_char c) * fnvPrime) hash (drop i pStr)"
    by simp
  finally show ?case .
qed

lemma char_to_uint32_low:
  assumes "\<not> signed_char \<or> c < 0x80"
  shows "char_to_uint32 signed_char c = ucast c"
proof (cases signed_char)
  case False
  then show ?thesis
    by (simp add: char_to_uint32_def)
next
  case True
  with assms have small: "unat c < 2 ^ 7"
    by (simp add: word_less_nat_alt)
  have high: "\<not> bit c n" if "7 \<le> n" for n
  proof -
    have "(2::nat) ^ 7 \<le> 2 ^ n"
      using that by (intro power_increasing) simp_all
    with small have "unat c div 2 ^ n = 0"
      by simp
    then have "\<not> bit (unat c) n"
      by (simp add: bit_iff_odd)
    then show ?thesis
      by (simp add: bit_unsigned_iff)
  qed
  have "(scast c :: 32 word) = ucast c"
  proof (rule bit_word_eqI)
    fix n assume "n < LENGTH(32)"
    show "bit (scast c :: 32 word) n = bit (ucast c :: 32 word) n"
      using high [of n] high [of 7] by (cases "n < 7") (auto simp add: bit_simps min_def)
  qed
  with True show ?thesis
    by (simp add: char_to_uint32_def)
qed

lemma HashString_is_fnv1a_reference:
  assumes "bytes \<noteq> []" "length bytes < 2 ^ 32"
    and "\<not> signed_char \<or> (\<forall>c \<in> set bytes. c < 0x80)"
  shows "HashString signed_char (Some bytes) (of_nat (length bytes))
           = Some (Inr (fnv1a_reference bytes))"
proof -
  have nz: "(of_nat (length bytes) :: 64 word) \<noteq> 0"
  proof
    assume "(of_nat (length bytes) :: 64 word) = 0"
    then have "unat (of_nat (length bytes) :: 64 word) = 0"
      by simp
    moreover have "length bytes < 2 ^ 64"
      using assms(2) by simp
    ultimately show False
      using assms(1) by (simp add: unat_of_nat)
  qed
  have "foldl (\<lambda>h c. (h XOR char_to_uint32 signed_char c) * fnvPrime) h bytes
          = foldl (\<lambda>h c. (h XOR ucast c) * 16777619) h bytes" for h
    using assms(3)
  proof (induction bytes arbitrary: h)
    case Nil
    then show ?case by simp
  next
    case (Cons c cs)
    then have "char_to_uint32 signed_char c = ucast c"
      by (intro char_to_uint32_low) auto
    with Cons show ?case
      by (auto simp add: fnvPrime_def)
  qed
  then show ?thesis
    using nz HashString_loop_foldl [OF assms(2), of 0 signed_char fnvOffset]
    by (simp add: HashString_def fnv1a_reference_def fnvOffset_def)
qed

section \<open>Debug print routing with a callback installed\<close>




section \<open>Wide bitfields: setting and testing a bit\<close>

text \<open>
  Claim C2 says that, on an all-zero wide bitfield of \<open>N\<close> words of \<open>W\<close> bits,
  \<open>WideBitfieldSetBit(bitfield, i)\<close> followed by \<open>WideBitfieldIsSet(bitfield, j)\<close>
  returns true when \<open>j = i\<close> and false for every other \<open>j\<close> in range, uniformly for
  every word width, 64-bit words included. With 64-bit words and \<open>i = 40\<close> the mask is
  the 32-bit shift \<open>1 << 40\<close>, which C++ leaves undefined: neither call yields a
  result.
\<close>

theorem WideBitfield_64_bit_word_bit_40:
  "WideBitfieldSetBit [0 :: 64 word] 40 = Inl ShiftOutOfRange \<and>
   WideBitfieldIsSet [0 :: 64 word] 40 = Inl ShiftOutOfRange"
  by (simp add: WideBitfieldSetBit_def WideBitfieldIsSet_def bit_mask_def int_shl1_def)

text \<open>
  Whatever value the shift produces, the mask is a \<open>uint32\<close>: or-ing it into a 64-bit
  word leaves bits 32 to 63 as they were, so bit 40 cannot become set.
\<close>

lemma uint32_mask_leaves_high_bits:
  "32 \<le> n \<Longrightarrow>
     bit (ucast ((ucast w :: 64 word) OR ucast (m :: 32 word)) :: 64 word) n = bit (w :: 64 word) n"
  by (auto simp add: bit_simps dest: bit_imp_le_length)

text \<open>
  For words of 8, 16 or 32 bits the round trip holds as the claim states it.
\<close>

lemma bit_offset_mod:
  assumes "LENGTH('a::len) \<in> {8, 16, 32}"
  shows "unat b AND (LENGTH('a) - 1) = unat b mod LENGTH('a)"
proof -
  have m: "x AND mask k = x mod 2 ^ k" for x k :: nat
    by (simp add: take_bit_eq_mask [symmetric] take_bit_eq_mod)
  from assms consider "LENGTH('a) = 8" | "LENGTH('a) = 16" | "LENGTH('a) = 32"
    by auto
  then show ?thesis
  proof cases
    case 1
    then show ?thesis using m [of "unat b" 3] by (simp add: mask_eq_exp_minus_1)
  next
    case 2
    then show ?thesis using m [of "unat b" 4] by (simp add: mask_eq_exp_minus_1)
  next
    case 3
    then show ?thesis using m [of "unat b" 5] by (simp add: mask_eq_exp_minus_1)
  qed
qed

lemma bit_mask_narrow:
  assumes "LENGTH('a::len) \<in> {8, 16, 32}"
  shows "bit_mask TYPE('a) b = Inr (2 ^ (unat b mod LENGTH('a)))"
proof -
  have "unat b mod LENGTH('a) < LENGTH('a)"
    by simp
  also have "LENGTH('a) \<le> 32"
    using assms by auto
  finally have "unat b mod LENGTH('a) < 32" .
  then show ?thesis
    unfolding bit_mask_def bit_offset_mod [OF assms] int_shl1_def
    by (simp add: push_bit_eq_mult)
qed

lemma set_word_value:
  assumes "s < LENGTH('a::len)" "LENGTH('a) \<le> 32"
  shows "(ucast (ucast (2 ^ s :: 32 word) :: 64 word) :: 'a word) = 2 ^ s"
  using assms by (intro bit_word_eqI) (auto simp add: bit_simps)

lemma test_word_value:
  assumes "s < LENGTH('a::len)" "t < LENGTH('a)" "LENGTH('a) \<le> 32"
  shows "(0 \<noteq> (ucast (2 ^ s :: 'a word) :: 64 word) AND ucast (2 ^ t :: 32 word)) \<longleftrightarrow> s = t"
proof (cases "s = t")
  case True
  have "bit ((ucast (2 ^ s :: 'a word) :: 64 word) AND ucast (2 ^ s :: 32 word)) s"
    using assms by (auto simp add: bit_simps)
  then have "(ucast (2 ^ s :: 'a word) :: 64 word) AND ucast (2 ^ s :: 32 word) \<noteq> 0"
    by auto
  with True show ?thesis
    by auto
next
  case False
  then have "(ucast (2 ^ s :: 'a word) :: 64 word) AND ucast (2 ^ t :: 32 word) = 0"
    by (intro bit_word_eqI) (auto simp add: bit_simps)
  with False show ?thesis
    by simp
qed

lemma WideBitfield_roundtrip_narrow:
  fixes bitfield :: "'a::len word list"
  assumes W: "LENGTH('a) \<in> {8, 16, 32}"
    and zero: "bitfield = replicate N 0"
    and i: "unat i < N * LENGTH('a)" and j: "unat j < N * LENGTH('a)"
  shows "\<exists>bf'. WideBitfieldSetBit bitfield i = Inr bf' \<and> WideBitfieldIsSet bf' j = Inr (j = i)"
proof -
  let ?W = "LENGTH('a)"
  let ?w = "2 ^ (unat i mod ?W) :: 'a word"
  have W32: "?W \<le> 32"
    using W by auto
  have idx: "unat i div ?W < N" "unat j div ?W < N"
    using i j by (simp_all add: less_mult_imp_div_less)
  have set: "WideBitfieldSetBit bitfield i = Inr (bitfield[unat i div ?W := ?w])"
    using idx(1) W32
    by (simp add: WideBitfieldSetBit_def bit_mask_narrow [OF W] word_index_def zero set_word_value)
  have eq: "j = i \<longleftrightarrow> unat j div ?W = unat i div ?W \<and> unat j mod ?W = unat i mod ?W"
    by (metis div_mult_mod_eq word_unat_eq_iff)
  let ?bf = "bitfield[unat i div ?W := ?w]"
  have len: "length ?bf = N"
    by (simp add: zero)
  have test: "WideBitfieldIsSet ?bf j =
      Inr (0 \<noteq> (ucast (?bf ! (unat j div ?W)) :: 64 word) AND
                 ucast (2 ^ (unat j mod ?W) :: 32 word))"
    unfolding WideBitfieldIsSet_def bit_mask_narrow [OF W] word_index_def
    using idx(2) len by (simp add: Let_def)
  have "(0 \<noteq> (ucast (?bf ! (unat j div ?W)) :: 64 word) AND
               ucast (2 ^ (unat j mod ?W) :: 32 word)) \<longleftrightarrow> j = i"
  proof (cases "unat j div ?W = unat i div ?W")
    case True
    then have "?bf ! (unat j div ?W) = ?w"
      using idx(1) by (simp add: zero)
    moreover have "(0 \<noteq> (ucast ?w :: 64 word) AND ucast (2 ^ (unat j mod ?W) :: 32 word))
                     \<longleftrightarrow> unat i mod ?W = unat j mod ?W"
      using W32 by (intro test_word_value) simp_all
    moreover have "j = i \<longleftrightarrow> unat i mod ?W = unat j mod ?W"
      unfolding eq using True by auto
    ultimately show ?thesis
      by (simp only:)
  next
    case False
    then have "?bf ! (unat j div ?W) = 0"
      using idx(2) by (simp add: zero)
    moreover have "j \<noteq> i"
      using False by auto
    ultimately show ?thesis
      by simp
  qed
  with test set show ?thesis
    by simp
qed

end
